theory Spec2Isabelle
  imports Complex_Main
begin

unbundle bit_operations_syntax

section \<open>The metaball contour kernel: field accumulation and marching squares\<close>

text \<open>
  This theory embeds \<^verbatim>\<open>src/wasm/metaball-contour.c\<close>: the helpers
  \<^verbatim>\<open>dist_to_segment_sq\<close> and \<^verbatim>\<open>lerp1d\<close>, the tables
  \<^verbatim>\<open>EDGE_TABLE\<close> and \<^verbatim>\<open>NUM_PAIRS\<close>, and the two exported functions
  \<^verbatim>\<open>add_bridge_field\<close> and \<^verbatim>\<open>marching_squares\<close> with the static
  \<^verbatim>\<open>get_edge_point\<close>.

  Conventions of the embedding.

  \<^item> A C \<^verbatim>\<open>float\<close> is a real number: arithmetic is exact, and rounding, infinities
    and NaN are outside the model. The float constants of the source are the decimal
    fractions they are written as.
  \<^item> A C \<^verbatim>\<open>int\<close> is an unbounded integer. The buffers the functions index exist in
    a 32-bit address space, which keeps every index expression of the source in range.
  \<^item> The conversions \<^verbatim>\<open>(int)floorf(x)\<close> and \<^verbatim>\<open>(int)ceilf(x)\<close> yield
    \<open>\<lfloor>x\<rfloor>\<close> and \<open>\<lceil>x\<rceil>\<close> when that integer is an \<^verbatim>\<open>int\<close>, from
    \<open>- 2\<^sup>3\<^sup>1\<close> to \<open>2\<^sup>3\<^sup>1 - 1\<close>. Outside that range, and for the quotient by a zero
    \<^verbatim>\<open>cell_size\<close>, C leaves the conversion undefined and the platforms differ
    (x86-64 yields \<open>- 2\<^sup>3\<^sup>1\<close>). What the conversion yields there is the parameter
    \<open>conv\<close> of the model, a function of the dividend and the divisor of the quotient
    converted, so that a theorem with \<open>conv\<close> free holds whatever the platform yields.
    A platform on which the conversion traps does not return from the call; the model
    describes the calls that return.
  \<^item> The three \<^verbatim>\<open>float*\<close> parameters point into one memory of floats, a function
    from addresses to values; a pointer is the address of its first float and
    \<^verbatim>\<open>p[i]\<close> is the memory at \<open>p + i\<close>. The buffers may therefore overlap, as they
    may in C, and every theorem that needs them apart says so.
  \<^item> HOL's \<open>x / 0 = 0\<close> is not what the code computes. The source divides by
    \<^verbatim>\<open>cell_size\<close> in \<^verbatim>\<open>add_bridge_field\<close>, and the model does not use that
    quotient when \<^verbatim>\<open>cell_size\<close> is zero. The other divisions of the source are
    guarded, or their quotient is not used when the divisor is zero.
\<close>

type_synonym mem = "int \<Rightarrow> real"

subsection \<open>Counted loops\<close>

text \<open>
  \<^verbatim>\<open>for (int i = lo; i < hi; i++) s = body(i, s);\<close> The loops of the source neither
  change their counter in the body nor their bound. A loop with the test
  \<^verbatim>\<open>i <= hi\<close> is the loop with the test \<^verbatim>\<open>i < hi + 1\<close>.
\<close>

function for_loop :: "int \<Rightarrow> int \<Rightarrow> (int \<Rightarrow> 's \<Rightarrow> 's) \<Rightarrow> 's \<Rightarrow> 's" where
  "for_loop i hi body s = (if i < hi then for_loop (i + 1) hi body (body i s) else s)"
  by pat_completeness auto
termination
  by (relation "measure (\<lambda>(i, hi, body, s). nat (hi - i))") auto

declare for_loop.simps [simp del]

subsection \<open>Helpers\<close>

text \<open>\<^verbatim>\<open>dist_to_segment_sq\<close>, lines 17 to 36.\<close>

definition dist_to_segment_sq ::
  "real \<Rightarrow> real \<Rightarrow> real \<Rightarrow> real \<Rightarrow> real \<Rightarrow> real \<Rightarrow> real" where
  "dist_to_segment_sq px py ax ay bx by =
     (let dx = bx - ax;
          dy = by - ay;
          lenSq = dx * dx + dy * dy
      in if lenSq < 1 / 1000000000000 then
           (let ex = px - ax; ey = py - ay in ex * ex + ey * ey)
         else
           (let t = ((px - ax) * dx + (py - ay) * dy) / lenSq;
                t = (if t < 0 then 0 else t);
                t = (if t > 1 then 1 else t);
                nearX = ax + t * dx;
                nearY = ay + t * dy;
                ex = px - nearX;
                ey = py - nearY
            in ex * ex + ey * ey))"

text \<open>\<^verbatim>\<open>lerp1d\<close>, lines 38 to 42.\<close>

definition lerp1d :: "real \<Rightarrow> real \<Rightarrow> real \<Rightarrow> real" where
  "lerp1d v0 v1 threshold =
     (let d = v1 - v0
      in if \<bar>d\<bar> < 1 / 10000000000 then 1 / 2 else (threshold - v0) / d)"

subsection \<open>The edge table\<close>

text \<open>
  \<^verbatim>\<open>EDGE_TABLE[16][2][2]\<close> and \<^verbatim>\<open>NUM_PAIRS[16]\<close>, lines 48 to 69. Edges:
  0 is the top, 1 the right, 2 the bottom, 3 the left edge of a cell.
\<close>

definition EDGE_TABLE :: "int list list list" where
  "EDGE_TABLE =
     [ [[-1, -1], [-1, -1]],
       [[3, 2], [-1, -1]],
       [[2, 1], [-1, -1]],
       [[3, 1], [-1, -1]],
       [[1, 0], [-1, -1]],
       [[3, 0], [1, 2]],
       [[2, 0], [-1, -1]],
       [[3, 0], [-1, -1]],
       [[0, 3], [-1, -1]],
       [[0, 2], [-1, -1]],
       [[0, 1], [2, 3]],
       [[0, 1], [-1, -1]],
       [[1, 3], [-1, -1]],
       [[1, 2], [-1, -1]],
       [[2, 3], [-1, -1]],
       [[-1, -1], [-1, -1]] ]"

definition NUM_PAIRS :: "int list" where
  "NUM_PAIRS = [0, 1, 1, 1, 1, 2, 1, 1, 1, 1, 2, 1, 1, 1, 1, 0]"

subsection \<open>The field accumulator\<close>

text \<open>
  The values of an \<^verbatim>\<open>int\<close>, and the conversions \<^verbatim>\<open>(int)floorf(a / b)\<close> and
  \<^verbatim>\<open>(int)ceilf(a / b)\<close> of lines 102 to 108. The floor or ceiling of the quotient
  is the result when it is an \<^verbatim>\<open>int\<close>; otherwise, and when \<open>b = 0\<close> (the quotient
  is then an infinity or NaN), the behaviour is undefined in C and the result is
  \<open>conv a b\<close>.
\<close>

definition int_range :: "int \<Rightarrow> bool" where
  "int_range k = (- 2147483648 \<le> k \<and> k \<le> 2147483647)"

definition int_of_floorf :: "(real \<Rightarrow> real \<Rightarrow> int) \<Rightarrow> real \<Rightarrow> real \<Rightarrow> int" where
  "int_of_floorf conv a b =
     (if b \<noteq> 0 \<and> int_range \<lfloor>a / b\<rfloor> then \<lfloor>a / b\<rfloor> else conv a b)"

definition int_of_ceilf :: "(real \<Rightarrow> real \<Rightarrow> int) \<Rightarrow> real \<Rightarrow> real \<Rightarrow> int" where
  "int_of_ceilf conv a b =
     (if b \<noteq> 0 \<and> int_range \<lceil>a / b\<rceil> then \<lceil>a / b\<rceil> else conv a b)"

text \<open>
  The body of the innermost loop of \<^verbatim>\<open>add_bridge_field\<close>, lines 114 to 119, for the
  grid point in row \<open>r\<close> and column \<open>c\<close>; \<open>py\<close> is computed once per row in line 112.
\<close>

definition bridge_cell ::
  "int \<Rightarrow> int \<Rightarrow> real \<Rightarrow> real \<Rightarrow> real \<Rightarrow> real \<Rightarrow> real \<Rightarrow> real \<Rightarrow> real \<Rightarrow>
   real \<Rightarrow> real \<Rightarrow> int \<Rightarrow> int \<Rightarrow> mem \<Rightarrow> mem" where
  "bridge_cell grid_values cols origin_x origin_y cell_size ax ay bx by
       invTwoSigmaSq cutoffSq r c m =
     (let py = origin_y + real_of_int r * cell_size;
          px = origin_x + real_of_int c * cell_size;
          dSq = dist_to_segment_sq px py ax ay bx by
      in if dSq < cutoffSq then
           (let val = exp (- dSq * invTwoSigmaSq)
            in m(grid_values + (r * cols + c) := m (grid_values + (r * cols + c)) + val))
         else m)"

text \<open>
  The body of the loop over the edges, lines 85 to 121, for edge \<open>i\<close>; \<open>baseSigma\<close>
  is computed before the loop in line 82.
\<close>

definition bridge_edge ::
  "(real \<Rightarrow> real \<Rightarrow> int) \<Rightarrow> int \<Rightarrow> int \<Rightarrow> int \<Rightarrow> real \<Rightarrow> real \<Rightarrow> real \<Rightarrow> int \<Rightarrow> real \<Rightarrow>
   int \<Rightarrow> mem \<Rightarrow> mem" where
  "bridge_edge conv grid_values cols rows origin_x origin_y cell_size mst_edges baseSigma i m =
     (let ax = m (mst_edges + (i * 4 + 0));
          ay = m (mst_edges + (i * 4 + 1));
          bx = m (mst_edges + (i * 4 + 2));
          by = m (mst_edges + (i * 4 + 3));
          edx = bx - ax;
          edy = by - ay;
          edgeLen = sqrt (edx * edx + edy * edy);
          bridgeSigma = max baseSigma (edgeLen * (12 / 100));
          invTwoSigmaSq = 1 / (2 * bridgeSigma * bridgeSigma);
          cutoff = 3 * bridgeSigma;
          cutoffSq = cutoff * cutoff;
          segMinX = min ax bx - cutoff;
          segMaxX = max ax bx + cutoff;
          segMinY = min ay by - cutoff;
          segMaxY = max ay by + cutoff;
          rMin = int_of_floorf conv (segMinY - origin_y) cell_size;
          rMin = (if rMin < 0 then 0 else rMin);
          rMax = int_of_ceilf conv (segMaxY - origin_y) cell_size;
          rMax = (if rMax > rows - 1 then rows - 1 else rMax);
          cMin = int_of_floorf conv (segMinX - origin_x) cell_size;
          cMin = (if cMin < 0 then 0 else cMin);
          cMax = int_of_ceilf conv (segMaxX - origin_x) cell_size;
          cMax = (if cMax > cols - 1 then cols - 1 else cMax)
      in for_loop rMin (rMax + 1)
           (\<lambda>r. for_loop cMin (cMax + 1)
              (bridge_cell grid_values cols origin_x origin_y cell_size ax ay bx by
                 invTwoSigmaSq cutoffSq r))
           m)"

text \<open>\<^verbatim>\<open>add_bridge_field\<close>, lines 74 to 123. It returns the memory it leaves.\<close>

definition add_bridge_field ::
  "(real \<Rightarrow> real \<Rightarrow> int) \<Rightarrow> mem \<Rightarrow> int \<Rightarrow> int \<Rightarrow> int \<Rightarrow> real \<Rightarrow> real \<Rightarrow> real \<Rightarrow> int \<Rightarrow> int \<Rightarrow>
   real \<Rightarrow> mem" where
  "add_bridge_field conv m grid_values cols rows origin_x origin_y cell_size
       mst_edges num_mst_edges base_sigma =
     (let baseSigma = max base_sigma (cell_size * (5 / 2))
      in for_loop 0 num_mst_edges
           (bridge_edge conv grid_values cols rows origin_x origin_y cell_size mst_edges
              baseSigma)
           m)"

subsection \<open>The contour extractor\<close>

text \<open>
  \<^verbatim>\<open>get_edge_point\<close>, lines 125 to 164. The switch has no default: for an edge
  other than 0 to 3 the function writes neither output, which is \<open>None\<close> here.
\<close>

definition get_edge_point ::
  "mem \<Rightarrow> int \<Rightarrow> int \<Rightarrow> real \<Rightarrow> real \<Rightarrow> real \<Rightarrow> int \<Rightarrow> int \<Rightarrow> int \<Rightarrow> real \<Rightarrow>
   (real \<times> real) option" where
  "get_edge_point m grid_values cols origin_x origin_y cell_size r c edge threshold =
     (let tl = m (grid_values + (r * cols + c));
          tr = m (grid_values + (r * cols + c + 1));
          bl = m (grid_values + ((r + 1) * cols + c));
          br = m (grid_values + ((r + 1) * cols + c + 1));
          x0 = origin_x + real_of_int c * cell_size;
          y0 = origin_y + real_of_int r * cell_size;
          x1 = x0 + cell_size;
          y1 = y0 + cell_size
      in if edge = 0 then
           (let t = lerp1d tl tr threshold in Some (x0 + t * cell_size, y0))
         else if edge = 1 then
           (let t = lerp1d tr br threshold in Some (x1, y0 + t * cell_size))
         else if edge = 2 then
           (let t = lerp1d bl br threshold in Some (x0 + t * cell_size, y1))
         else if edge = 3 then
           (let t = lerp1d tl bl threshold in Some (x0, y0 + t * cell_size))
         else None)"

text \<open>
  The four stores of a segment, lines 220 to 223, into slot \<^verbatim>\<open>seg_count\<close> of
  \<^verbatim>\<open>segments_out\<close>.
\<close>

definition store_segment :: "int \<Rightarrow> int \<Rightarrow> real \<Rightarrow> real \<Rightarrow> real \<Rightarrow> real \<Rightarrow> mem \<Rightarrow> mem" where
  "store_segment segments_out seg_count x0 y0 x1 y1 m =
     m(segments_out + (seg_count * 4 + 0) := x0,
       segments_out + (seg_count * 4 + 1) := y0,
       segments_out + (seg_count * 4 + 2) := x1,
       segments_out + (seg_count * 4 + 3) := y1)"

text \<open>
  The body of the loop over the pairs of a cell, lines 215 to 224, for the pair
  \<open>pair = pairs[p]\<close>. The state is the memory and \<^verbatim>\<open>seg_count\<close>. When
  \<^verbatim>\<open>get_edge_point\<close> writes no output the segment would be built from
  uninitialised locals: the result is \<open>None\<close>.
\<close>

definition emit_segment ::
  "int \<Rightarrow> int \<Rightarrow> real \<Rightarrow> real \<Rightarrow> real \<Rightarrow> real \<Rightarrow> int \<Rightarrow> int \<Rightarrow> int \<Rightarrow> int list \<Rightarrow>
   mem \<times> int \<Rightarrow> (mem \<times> int) option" where
  "emit_segment grid_values cols origin_x origin_y cell_size threshold segments_out
       r c pair st =
     (case st of (m, seg_count) \<Rightarrow>
       (case get_edge_point m grid_values cols origin_x origin_y cell_size
               r c (pair ! 0) threshold of
          None \<Rightarrow> None
        | Some (x0, y0) \<Rightarrow>
           (case get_edge_point m grid_values cols origin_x origin_y cell_size
                   r c (pair ! 1) threshold of
              None \<Rightarrow> None
            | Some (x1, y1) \<Rightarrow>
                Some (store_segment segments_out seg_count x0 y0 x1 y1 m, seg_count + 1))))"

text \<open>The case index of the cell whose top-left corner is \<open>(r, c)\<close>, lines 178 to 183.\<close>

definition case_index :: "mem \<Rightarrow> int \<Rightarrow> int \<Rightarrow> int \<Rightarrow> int \<Rightarrow> real \<Rightarrow> int" where
  "case_index m grid_values cols r c threshold =
     (let tl = (if m (grid_values + (r * cols + c)) \<ge> threshold then 1 else 0);
          tr = (if m (grid_values + (r * cols + c + 1)) \<ge> threshold then 1 else 0);
          br = (if m (grid_values + ((r + 1) * cols + c + 1)) \<ge> threshold then 1 else 0);
          bl = (if m (grid_values + ((r + 1) * cols + c)) \<ge> threshold then 1 else 0)
      in ((push_bit 3 tl OR push_bit 2 tr) OR push_bit 1 br) OR bl)"

text \<open>
  The pairs of a cell, lines 186 to 212: the row of the table, replaced for the
  saddles 5 and 10 by the pairing the centre value selects.
\<close>

definition cell_pairs :: "mem \<Rightarrow> int \<Rightarrow> int \<Rightarrow> int \<Rightarrow> int \<Rightarrow> real \<Rightarrow> int \<Rightarrow> int list list" where
  "cell_pairs m grid_values cols r c threshold caseIndex =
     (let pairs = EDGE_TABLE ! nat caseIndex
      in if caseIndex = 5 \<or> caseIndex = 10 then
           (let center = (m (grid_values + (r * cols + c)) + m (grid_values + (r * cols + c + 1)) +
                          m (grid_values + ((r + 1) * cols + c + 1)) +
                          m (grid_values + ((r + 1) * cols + c))) / 4
            in if caseIndex = 5 then
                 (if center \<ge> threshold then [[3, 2], [1, 0]] else [[3, 0], [1, 2]])
               else
                 (if center \<ge> threshold then [[0, 3], [2, 1]] else [[0, 1], [2, 3]]))
         else pairs)"

text \<open>
  The body of the loop over the cells, lines 178 to 225. A state \<open>None\<close> stays \<open>None\<close>
  through the loops.
\<close>

definition marching_squares_cell ::
  "int \<Rightarrow> int \<Rightarrow> real \<Rightarrow> real \<Rightarrow> real \<Rightarrow> real \<Rightarrow> int \<Rightarrow> int \<Rightarrow> int \<Rightarrow>
   mem \<times> int \<Rightarrow> (mem \<times> int) option" where
  "marching_squares_cell grid_values cols origin_x origin_y cell_size threshold segments_out
       r c st =
     (case st of (m, seg_count) \<Rightarrow>
       (let caseIndex = case_index m grid_values cols r c threshold
        in if caseIndex = 0 \<or> caseIndex = 15 then Some st
           else
             (let numPairs = NUM_PAIRS ! nat caseIndex;
                  pairs = cell_pairs m grid_values cols r c threshold caseIndex
              in for_loop 0 numPairs
                   (\<lambda>p s. Option.bind s
                      (emit_segment grid_values cols origin_x origin_y cell_size threshold
                         segments_out r c (pairs ! nat p)))
                   (Some st))))"

text \<open>
  \<^verbatim>\<open>marching_squares\<close>, lines 167 to 230. It returns the memory it leaves and the
  segment count, or \<open>None\<close> when a segment would be built from uninitialised locals.
\<close>

definition marching_squares ::
  "mem \<Rightarrow> int \<Rightarrow> int \<Rightarrow> int \<Rightarrow> real \<Rightarrow> real \<Rightarrow> real \<Rightarrow> real \<Rightarrow> int \<Rightarrow> (mem \<times> int) option" where
  "marching_squares m grid_values cols rows origin_x origin_y cell_size threshold segments_out =
     for_loop 0 (rows - 1)
       (\<lambda>r. for_loop 0 (cols - 1)
          (\<lambda>c s. Option.bind s
             (marching_squares_cell grid_values cols origin_x origin_y cell_size threshold
                segments_out r c)))
       (Some (m, 0))"

subsection \<open>Notions used to state the properties\<close>

text \<open>
  The point \<open>(x, y)\<close> lies on edge \<open>edge\<close> of the world-space square of the cell
  \<open>(r, c)\<close>: on the edge's line and between its two corners. The corners are those
  \<^verbatim>\<open>get_edge_point\<close> computes in lines 136 to 139.
\<close>

definition on_cell_edge :: "real \<Rightarrow> real \<Rightarrow> real \<Rightarrow> int \<Rightarrow> int \<Rightarrow> int \<Rightarrow> real \<Rightarrow> real \<Rightarrow> bool" where
  "on_cell_edge origin_x origin_y cell_size r c edge x y =
     (let x0 = origin_x + real_of_int c * cell_size;
          y0 = origin_y + real_of_int r * cell_size;
          x1 = x0 + cell_size;
          y1 = y0 + cell_size
      in if edge = 0 then y = y0 \<and> min x0 x1 \<le> x \<and> x \<le> max x0 x1
         else if edge = 1 then x = x1 \<and> min y0 y1 \<le> y \<and> y \<le> max y0 y1
         else if edge = 2 then y = y1 \<and> min x0 x1 \<le> x \<and> x \<le> max x0 x1
         else if edge = 3 then x = x0 \<and> min y0 y1 \<le> y \<and> y \<le> max y0 y1
         else False)"

text \<open>
  One corner of the edge is inside (its value is at least the threshold) and the other is
  outside. The corners of the edges are those of the switch in \<^verbatim>\<open>get_edge_point\<close>.
\<close>

definition edge_straddles :: "mem \<Rightarrow> int \<Rightarrow> int \<Rightarrow> int \<Rightarrow> int \<Rightarrow> real \<Rightarrow> int \<Rightarrow> bool" where
  "edge_straddles m grid_values cols r c threshold edge =
     (let tl = m (grid_values + (r * cols + c));
          tr = m (grid_values + (r * cols + c + 1));
          bl = m (grid_values + ((r + 1) * cols + c));
          br = m (grid_values + ((r + 1) * cols + c + 1))
      in if edge = 0 then (tl \<ge> threshold) \<noteq> (tr \<ge> threshold)
         else if edge = 1 then (tr \<ge> threshold) \<noteq> (br \<ge> threshold)
         else if edge = 2 then (bl \<ge> threshold) \<noteq> (br \<ge> threshold)
         else if edge = 3 then (tl \<ge> threshold) \<noteq> (bl \<ge> threshold)
         else False)"

text \<open>
  None of the four corners of the cell \<open>(r, c)\<close> is one of the four floats of slot
  \<open>n\<close> of \<^verbatim>\<open>segments_out\<close>.
\<close>

definition corners_apart :: "int \<Rightarrow> int \<Rightarrow> int \<Rightarrow> int \<Rightarrow> int \<Rightarrow> int \<Rightarrow> bool" where
  "corners_apart grid_values cols r c segments_out n =
     ((grid_values + (r * cols + c) < segments_out + n * 4 \<or>
       segments_out + n * 4 + 4 \<le> grid_values + (r * cols + c)) \<and>
      (grid_values + (r * cols + c + 1) < segments_out + n * 4 \<or>
       segments_out + n * 4 + 4 \<le> grid_values + (r * cols + c + 1)) \<and>
      (grid_values + ((r + 1) * cols + c) < segments_out + n * 4 \<or>
       segments_out + n * 4 + 4 \<le> grid_values + ((r + 1) * cols + c)) \<and>
      (grid_values + ((r + 1) * cols + c + 1) < segments_out + n * 4 \<or>
       segments_out + n * 4 + 4 \<le> grid_values + ((r + 1) * cols + c + 1)))"

text \<open>
  Both end points of the segment in slot \<open>k\<close> of \<^verbatim>\<open>segments_out\<close> lie on edges of
  the cell \<open>(r, c)\<close>.
\<close>

definition segment_on_cell ::
  "mem \<Rightarrow> int \<Rightarrow> int \<Rightarrow> real \<Rightarrow> real \<Rightarrow> real \<Rightarrow> int \<Rightarrow> int \<Rightarrow> bool" where
  "segment_on_cell m segments_out k origin_x origin_y cell_size r c =
     (\<exists>e0 e1.
        on_cell_edge origin_x origin_y cell_size r c e0
          (m (segments_out + k * 4)) (m (segments_out + k * 4 + 1)) \<and>
        on_cell_edge origin_x origin_y cell_size r c e1
          (m (segments_out + k * 4 + 2)) (m (segments_out + k * 4 + 3)))"

text \<open>
  The point \<open>(x, y)\<close> lies in the closed world-space square of the cell \<open>(r, c)\<close>,
  for a cell size that is not negative.
\<close>

definition in_cell_square :: "real \<Rightarrow> real \<Rightarrow> real \<Rightarrow> int \<Rightarrow> int \<Rightarrow> real \<Rightarrow> real \<Rightarrow> bool" where
  "in_cell_square origin_x origin_y cell_size r c x y =
     (origin_x + real_of_int c * cell_size \<le> x \<and>
      x \<le> origin_x + (real_of_int c + 1) * cell_size \<and>
      origin_y + real_of_int r * cell_size \<le> y \<and>
      y \<le> origin_y + (real_of_int r + 1) * cell_size)"

text \<open>
  The number of segments the cell \<open>(r, c)\<close> emits, \<^verbatim>\<open>NUM_PAIRS[caseIndex]\<close>; it is
  0 for the cases 0 and 15, which the loop skips.
\<close>

definition cell_segments :: "mem \<Rightarrow> int \<Rightarrow> int \<Rightarrow> int \<Rightarrow> int \<Rightarrow> real \<Rightarrow> int" where
  "cell_segments m grid_values cols r c threshold =
     NUM_PAIRS ! nat (case_index m grid_values cols r c threshold)"

text \<open>
  The number of segments of the cells that the sweep visits before the cell \<open>(r, c)\<close>,
  row by row and each row by columns: the cell with the number \<open>k\<close> in that order is
  \<open>(k div (cols - 1), k mod (cols - 1))\<close>, and \<open>(r, c)\<close> has the number
  \<open>r * (cols - 1) + c\<close>. It is the slot of \<^verbatim>\<open>segments_out\<close> in which the cell
  \<open>(r, c)\<close> stores its first segment.
\<close>

definition segments_before :: "mem \<Rightarrow> int \<Rightarrow> int \<Rightarrow> real \<Rightarrow> int \<Rightarrow> int \<Rightarrow> int" where
  "segments_before m grid_values cols threshold r c =
     (\<Sum>k = 0..<r * (cols - 1) + c.
        cell_segments m grid_values cols (k div (cols - 1)) (k mod (cols - 1)) threshold)"

text \<open>
  Slot \<open>k\<close> of \<^verbatim>\<open>segments_out\<close> in the memory \<open>m'\<close> holds the segment of the pair
  \<open>p\<close> of the cell \<open>(r, c)\<close>: its two end points are the points that
  \<^verbatim>\<open>get_edge_point\<close> computes in the memory \<open>m\<close> for the two edges of the pair.
\<close>

definition pair_stored ::
  "mem \<Rightarrow> mem \<Rightarrow> int \<Rightarrow> int \<Rightarrow> real \<Rightarrow> real \<Rightarrow> real \<Rightarrow> real \<Rightarrow> int \<Rightarrow> int \<Rightarrow> int \<Rightarrow>
   int \<Rightarrow> int \<Rightarrow> bool" where
  "pair_stored m m' grid_values cols origin_x origin_y cell_size threshold segments_out
       r c p k =
     (let pair = cell_pairs m grid_values cols r c threshold
                   (case_index m grid_values cols r c threshold) ! nat p
      in get_edge_point m grid_values cols origin_x origin_y cell_size r c (pair ! 0) threshold =
           Some (m' (segments_out + k * 4), m' (segments_out + k * 4 + 1)) \<and>
         get_edge_point m grid_values cols origin_x origin_y cell_size r c (pair ! 1) threshold =
           Some (m' (segments_out + k * 4 + 2), m' (segments_out + k * 4 + 3)))"

subsection \<open>The accumulator without the bounding box\<close>



subsection \<open>Parts of the accumulator, named for the proofs\<close>

text \<open>
  What \<open>bridge_cell\<close> adds to the cell \<open>(r, c)\<close>: the Gaussian value within the cutoff,
  nothing beyond it.
\<close>

definition bridge_weight ::
  "real \<Rightarrow> real \<Rightarrow> real \<Rightarrow> real \<Rightarrow> real \<Rightarrow> real \<Rightarrow> real \<Rightarrow> real \<Rightarrow> real \<Rightarrow> int \<Rightarrow> int \<Rightarrow> real" where
  "bridge_weight origin_x origin_y cell_size ax ay bx by invTwoSigmaSq cutoffSq r c =
     (let py = origin_y + real_of_int r * cell_size;
          px = origin_x + real_of_int c * cell_size;
          dSq = dist_to_segment_sq px py ax ay bx by
      in if dSq < cutoffSq then exp (- dSq * invTwoSigmaSq) else 0)"

text \<open>
  The clamped bounds of the bounding box, lines 102 to 109: the lower bound of a range of
  rows or columns, and its upper bound for \<open>n\<close> rows or columns.
\<close>

definition bbox_lo :: "(real \<Rightarrow> real \<Rightarrow> int) \<Rightarrow> real \<Rightarrow> real \<Rightarrow> real \<Rightarrow> int" where
  "bbox_lo conv seg_min origin cell_size =
     (let k = int_of_floorf conv (seg_min - origin) cell_size in if k < 0 then 0 else k)"

definition bbox_hi :: "(real \<Rightarrow> real \<Rightarrow> int) \<Rightarrow> real \<Rightarrow> real \<Rightarrow> real \<Rightarrow> int \<Rightarrow> int" where
  "bbox_hi conv seg_max origin cell_size n =
     (let k = int_of_ceilf conv (seg_max - origin) cell_size in if k > n - 1 then n - 1 else k)"

text \<open>The effective width of an edge, line 92, from \<open>baseSigma\<close> and the end points.\<close>

definition bridge_sigma :: "real \<Rightarrow> real \<Rightarrow> real \<Rightarrow> real \<Rightarrow> real \<Rightarrow> real" where
  "bridge_sigma baseSigma ax ay bx by =
     max baseSigma (sqrt ((bx - ax) * (bx - ax) + (by - ay) * (by - ay)) * (12 / 100))"

text \<open>
  What edge \<open>i\<close> of the buffer \<^verbatim>\<open>mst_edges\<close>, as the memory \<open>m\<close> holds it, adds to
  the cell \<open>(r, c)\<close>.
\<close>

definition edge_weight ::
  "mem \<Rightarrow> real \<Rightarrow> real \<Rightarrow> real \<Rightarrow> int \<Rightarrow> real \<Rightarrow> int \<Rightarrow> int \<Rightarrow> int \<Rightarrow> real" where
  "edge_weight m origin_x origin_y cell_size mst_edges baseSigma i r c =
     (let ax = m (mst_edges + (i * 4 + 0));
          ay = m (mst_edges + (i * 4 + 1));
          bx = m (mst_edges + (i * 4 + 2));
          by = m (mst_edges + (i * 4 + 3));
          s = bridge_sigma baseSigma ax ay bx by
      in bridge_weight origin_x origin_y cell_size ax ay bx by
           (1 / (2 * s * s)) (3 * s * (3 * s)) r c)"

text \<open>
  The cell \<open>(r, c)\<close> lies in the range of rows and columns that the loops of lines 111
  and 113 visit for edge \<open>i\<close>, as the memory \<open>m\<close> holds the edge.
\<close>

definition edge_visits ::
  "(real \<Rightarrow> real \<Rightarrow> int) \<Rightarrow> mem \<Rightarrow> int \<Rightarrow> int \<Rightarrow> real \<Rightarrow> real \<Rightarrow> real \<Rightarrow> int \<Rightarrow> real \<Rightarrow>
   int \<Rightarrow> int \<Rightarrow> int \<Rightarrow> bool" where
  "edge_visits conv m cols rows origin_x origin_y cell_size mst_edges baseSigma i r c =
     (let ax = m (mst_edges + (i * 4 + 0));
          ay = m (mst_edges + (i * 4 + 1));
          bx = m (mst_edges + (i * 4 + 2));
          by = m (mst_edges + (i * 4 + 3));
          s = bridge_sigma baseSigma ax ay bx by
      in bbox_lo conv (min ay by - 3 * s) origin_y cell_size \<le> r \<and>
         r < bbox_hi conv (max ay by + 3 * s) origin_y cell_size rows + 1 \<and>
         bbox_lo conv (min ax bx - 3 * s) origin_x cell_size \<le> c \<and>
         c < bbox_hi conv (max ax bx + 3 * s) origin_x cell_size cols + 1)"

text \<open>
  The four quotients of lines 102 to 108 for edge \<open>i\<close>, as the memory \<open>m\<close> holds the
  edge, have a floor or ceiling that is an \<^verbatim>\<open>int\<close>: the four conversions are
  defined in C when the cell size is not zero.
\<close>

definition box_in_range ::
  "mem \<Rightarrow> real \<Rightarrow> real \<Rightarrow> real \<Rightarrow> int \<Rightarrow> real \<Rightarrow> int \<Rightarrow> bool" where
  "box_in_range m origin_x origin_y cell_size mst_edges baseSigma i =
     (let ax = m (mst_edges + (i * 4 + 0));
          ay = m (mst_edges + (i * 4 + 1));
          bx = m (mst_edges + (i * 4 + 2));
          by = m (mst_edges + (i * 4 + 3));
          edx = bx - ax;
          edy = by - ay;
          edgeLen = sqrt (edx * edx + edy * edy);
          bridgeSigma = max baseSigma (edgeLen * (12 / 100));
          cutoff = 3 * bridgeSigma;
          segMinX = min ax bx - cutoff;
          segMaxX = max ax bx + cutoff;
          segMinY = min ay by - cutoff;
          segMaxY = max ay by + cutoff
      in int_range \<lfloor>(segMinY - origin_y) / cell_size\<rfloor> \<and>
         int_range \<lceil>(segMaxY - origin_y) / cell_size\<rceil> \<and>
         int_range \<lfloor>(segMinX - origin_x) / cell_size\<rfloor> \<and>
         int_range \<lceil>(segMaxX - origin_x) / cell_size\<rceil>)"

section \<open>Properties of the counted loop\<close>

lemma for_loop_done: "\<not> i < hi \<Longrightarrow> for_loop i hi body s = s"
  by (simp add: for_loop.simps)

lemma for_loop_step: "i < hi \<Longrightarrow> for_loop i hi body s = for_loop (i + 1) hi body (body i s)"
  by (subst for_loop.simps) simp

lemma for_loop_rule:
  assumes "P lo s"
    and "\<And>i t. lo \<le> i \<Longrightarrow> i < hi \<Longrightarrow> P i t \<Longrightarrow> P (i + 1) (body i t)"
    and "lo \<le> hi"
  shows "P hi (for_loop lo hi body s)"
  using assms
proof (induction lo hi body s rule: for_loop.induct)
  case (1 i hi body s)
  show ?case
  proof (cases "i < hi")
    case True
    have "P hi (for_loop (i + 1) hi body (body i s))"
    proof (rule "1.IH" [OF True])
      show "P (i + 1) (body i s)" using "1.prems" True by simp
      show "\<And>j t. i + 1 \<le> j \<Longrightarrow> j < hi \<Longrightarrow> P j t \<Longrightarrow> P (j + 1) (body j t)"
        using "1.prems"(2) by simp
      show "i + 1 \<le> hi" using True by simp
    qed
    then show ?thesis using True by (simp add: for_loop_step)
  next
    case False
    with "1.prems" have "i = hi" by simp
    then show ?thesis using "1.prems"(1) by (simp add: for_loop_done)
  qed
qed

lemma for_loop_cong_range:
  assumes "\<And>i t. lo \<le> i \<Longrightarrow> i < hi \<Longrightarrow> f i t = g i t"
  shows "for_loop lo hi f s = for_loop lo hi g s"
  using assms
proof (induction lo hi f s rule: for_loop.induct)
  case (1 i hi f s)
  show ?case
  proof (cases "i < hi")
    case True
    have "for_loop (i + 1) hi f (f i s) = for_loop (i + 1) hi g (f i s)"
      using "1.prems" by (intro "1.IH" [OF True]) simp
    then show ?thesis using True "1.prems" [of i s] by (simp add: for_loop_step)
  next
    case False
    then show ?thesis by (simp add: for_loop_done)
  qed
qed

lemma for_loop_skip:
  assumes "\<And>i. lo \<le> i \<Longrightarrow> i < hi \<Longrightarrow> body i s = s"
  shows "for_loop lo hi body s = s"
  using assms
proof (induction lo hi body s rule: for_loop.induct)
  case (1 i hi body s)
  show ?case
  proof (cases "i < hi")
    case True
    have b: "body i s = s" using "1.prems" True by simp
    have "for_loop (i + 1) hi body (body i s) = body i s"
      using "1.prems" b by (intro "1.IH" [OF True]) simp
    then show ?thesis using True b by (simp add: for_loop_step)
  next
    case False
    then show ?thesis by (simp add: for_loop_done)
  qed
qed


section \<open>Edge points\<close>

text \<open>
  The point \<^verbatim>\<open>get_edge_point\<close> computes for an edge 0 to 3 of the cell \<open>(r, c)\<close>, as
  a function of the four corner values: \<open>origin + (index + offset) * cell_size\<close>, the
  offset being the interpolation parameter along the edge and 0 or 1 across it.
\<close>

lemma get_edge_point_formula:
  assumes "0 \<le> edge \<and> edge \<le> 3"
  shows "get_edge_point m grid_values cols origin_x origin_y cell_size r c edge threshold =
     (let tl = m (grid_values + (r * cols + c));
          tr = m (grid_values + (r * cols + c + 1));
          bl = m (grid_values + ((r + 1) * cols + c));
          br = m (grid_values + ((r + 1) * cols + c + 1));
          t = (\<lambda>v0 v1. if \<bar>v1 - v0\<bar> < 1 / 10 ^ 10 then 1 / 2
                        else (threshold - v0) / (v1 - v0))
      in Some
           (if edge = 0 then
              (origin_x + (real_of_int c + t tl tr) * cell_size,
               origin_y + (real_of_int r + 0) * cell_size)
            else if edge = 1 then
              (origin_x + (real_of_int c + 1) * cell_size,
               origin_y + (real_of_int r + t tr br) * cell_size)
            else if edge = 2 then
              (origin_x + (real_of_int c + t bl br) * cell_size,
               origin_y + (real_of_int r + 1) * cell_size)
            else
              (origin_x + (real_of_int c + 0) * cell_size,
               origin_y + (real_of_int r + t tl bl) * cell_size)))"
proof -
  from assms have "edge = 0 \<or> edge = 1 \<or> edge = 2 \<or> edge = 3"
    by arith
  then show ?thesis
    by (auto simp add: get_edge_point_def lerp1d_def Let_def algebra_simps)
qed

section \<open>One cell of the contour extractor\<close>

subsection \<open>The case index and the shape of the cell's loop\<close>

lemma case_index_sum:
  "case_index m grid_values cols r c threshold =
     (if m (grid_values + (r * cols + c)) \<ge> threshold then 8 else 0) +
     (if m (grid_values + (r * cols + c + 1)) \<ge> threshold then 4 else 0) +
     (if m (grid_values + ((r + 1) * cols + c + 1)) \<ge> threshold then 2 else 0) +
     (if m (grid_values + ((r + 1) * cols + c)) \<ge> threshold then 1 else 0)"
  by (simp add: case_index_def)

lemma case_index_range:
  "0 \<le> case_index m grid_values cols r c threshold \<and>
   case_index m grid_values cols r c threshold \<le> 15"
  by (simp add: case_index_sum)

lemma for_loop_once: "for_loop 0 1 f s = f 0 s"
  by (simp add: for_loop_step for_loop_done)

lemma for_loop_twice: "for_loop 0 2 f s = f 1 (f 0 s)"
  by (simp add: for_loop_step for_loop_done)

lemma int_cases_16:
  "0 \<le> (k::int) \<Longrightarrow> k \<le> 15 \<Longrightarrow>
   k = 0 \<or> k = 1 \<or> k = 2 \<or> k = 3 \<or> k = 4 \<or> k = 5 \<or> k = 6 \<or> k = 7 \<or>
   k = 8 \<or> k = 9 \<or> k = 10 \<or> k = 11 \<or> k = 12 \<or> k = 13 \<or> k = 14 \<or> k = 15"
  by arith

lemma marching_squares_cell_skip:
  assumes "case_index m grid_values cols r c threshold = 0 \<or>
           case_index m grid_values cols r c threshold = 15"
  shows "marching_squares_cell grid_values cols origin_x origin_y cell_size threshold
           segments_out r c (m, n) = Some (m, n)"
  using assms by (simp add: marching_squares_cell_def)

lemma marching_squares_cell_single:
  assumes "case_index m grid_values cols r c threshold = ci"
    and "ci \<noteq> 0" "ci \<noteq> 5" "ci \<noteq> 10" "ci \<noteq> 15"
  shows "marching_squares_cell grid_values cols origin_x origin_y cell_size threshold
           segments_out r c (m, n) =
         emit_segment grid_values cols origin_x origin_y cell_size threshold
           segments_out r c (EDGE_TABLE ! nat ci ! 0) (m, n)"
proof -
  have "0 \<le> ci \<and> ci \<le> 15"
    using assms(1) case_index_range by blast
  then have "ci = 0 \<or> ci = 1 \<or> ci = 2 \<or> ci = 3 \<or> ci = 4 \<or> ci = 5 \<or> ci = 6 \<or> ci = 7 \<or>
      ci = 8 \<or> ci = 9 \<or> ci = 10 \<or> ci = 11 \<or> ci = 12 \<or> ci = 13 \<or> ci = 14 \<or> ci = 15"
    by (simp add: int_cases_16)
  with assms(2-5) have "NUM_PAIRS ! nat ci = 1"
    by (auto simp add: NUM_PAIRS_def)
  then show ?thesis
    using assms
    by (simp add: marching_squares_cell_def cell_pairs_def for_loop_once)
qed

lemma marching_squares_cell_saddle:
  assumes "case_index m grid_values cols r c threshold = ci"
    and "ci = 5 \<or> ci = 10"
  shows "marching_squares_cell grid_values cols origin_x origin_y cell_size threshold
           segments_out r c (m, n) =
         Option.bind
           (emit_segment grid_values cols origin_x origin_y cell_size threshold
              segments_out r c (cell_pairs m grid_values cols r c threshold ci ! 0) (m, n))
           (emit_segment grid_values cols origin_x origin_y cell_size threshold
              segments_out r c (cell_pairs m grid_values cols r c threshold ci ! 1))"
proof -
  from assms(2) have "NUM_PAIRS ! nat ci = 2"
    by (auto simp add: NUM_PAIRS_def)
  then show ?thesis
    using assms
    by (auto simp add: marching_squares_cell_def for_loop_twice)
qed

subsection \<open>Edges that straddle the threshold\<close>

lemma lerp1d_unit:
  assumes "(v0 \<ge> threshold) \<noteq> (v1 \<ge> threshold)"
  shows "0 \<le> lerp1d v0 v1 threshold \<and> lerp1d v0 v1 threshold \<le> 1"
proof (cases "\<bar>v1 - v0\<bar> < 1 / 10000000000")
  case True
  then show ?thesis by (simp add: lerp1d_def)
next
  case False
  then have l: "lerp1d v0 v1 threshold = (threshold - v0) / (v1 - v0)"
    by (simp add: lerp1d_def)
  show ?thesis
  proof (cases "v0 \<ge> threshold")
    case True
    with assms have "v1 < threshold" by simp
    with True show ?thesis
      unfolding l by (simp add: divide_le_eq zero_le_divide_iff)
  next
    case False
    with assms have "threshold \<le> v1" by simp
    with False show ?thesis
      unfolding l by (simp add: divide_le_eq zero_le_divide_iff)
  qed
qed

lemma scaled_between:
  fixes t :: real
  assumes "0 \<le> t" "t \<le> 1"
  shows "min a (a + s) \<le> a + t * s \<and> a + t * s \<le> max a (a + s)"
proof (cases "0 \<le> s")
  case True
  then have "0 \<le> t * s" "t * s \<le> s"
    using assms by (simp_all add: mult_left_le_one_le)
  with True show ?thesis by simp
next
  case False
  then have "t * s \<le> 0" "s \<le> t * s"
    using assms by (simp_all add: mult_nonneg_nonpos  mult_left_le_one_le mult_le_cancel_right2)
  with False show ?thesis by simp
qed

lemma lerp1d_coord:
  assumes "(v0 \<ge> threshold) \<noteq> (v1 \<ge> threshold)"
  shows "min a (a + s) \<le> a + lerp1d v0 v1 threshold * s"
    and "a + lerp1d v0 v1 threshold * s \<le> max a (a + s)"
  using lerp1d_unit [OF assms] scaled_between [of "lerp1d v0 v1 threshold" a s]
  by simp_all

lemma get_edge_point_on_edge:
  assumes "edge_straddles m grid_values cols r c threshold edge"
  shows "\<exists>x y. get_edge_point m grid_values cols origin_x origin_y cell_size r c edge threshold
               = Some (x, y) \<and>
             on_cell_edge origin_x origin_y cell_size r c edge x y"
proof -
  from assms have e: "edge = 0 \<or> edge = 1 \<or> edge = 2 \<or> edge = 3"
    by (auto simp add: edge_straddles_def Let_def split: if_splits)
  then consider "edge = 0" | "edge = 1" | "edge = 2" | "edge = 3"
    by blast
  then show ?thesis
  proof cases
    case 1
    with assms show ?thesis
      by (simp add: get_edge_point_def on_cell_edge_def edge_straddles_def Let_def lerp1d_coord)
  next
    case 2
    with assms show ?thesis
      by (simp add: get_edge_point_def on_cell_edge_def edge_straddles_def Let_def lerp1d_coord)
  next
    case 3
    with assms show ?thesis
      by (simp add: get_edge_point_def on_cell_edge_def edge_straddles_def Let_def lerp1d_coord)
  next
    case 4
    with assms show ?thesis
      by (simp add: get_edge_point_def on_cell_edge_def edge_straddles_def Let_def lerp1d_coord)
  qed
qed

lemma cell_pairs_first:
  assumes "case_index m grid_values cols r c threshold = ci" and "ci \<noteq> 0" and "ci \<noteq> 15"
  shows "edge_straddles m grid_values cols r c threshold
           (cell_pairs m grid_values cols r c threshold ci ! 0 ! 0) \<and>
         edge_straddles m grid_values cols r c threshold
           (cell_pairs m grid_values cols r c threshold ci ! 0 ! 1)"
  using assms
  by (cases "threshold \<le> m (grid_values + (r * cols + c))";
      cases "threshold \<le> m (grid_values + (r * cols + c + 1))";
      cases "threshold \<le> m (grid_values + ((r + 1) * cols + c + 1))";
      cases "threshold \<le> m (grid_values + ((r + 1) * cols + c))";
      cases "threshold \<le> (m (grid_values + (r * cols + c)) + m (grid_values + (r * cols + c + 1)) +
                          m (grid_values + ((r + 1) * cols + c + 1)) +
                          m (grid_values + ((r + 1) * cols + c))) / 4";
      simp add: case_index_sum cell_pairs_def EDGE_TABLE_def edge_straddles_def Let_def)

lemma cell_pairs_second:
  assumes "case_index m grid_values cols r c threshold = ci" and "ci = 5 \<or> ci = 10"
  shows "edge_straddles m grid_values cols r c threshold
           (cell_pairs m grid_values cols r c threshold ci ! 1 ! 0) \<and>
         edge_straddles m grid_values cols r c threshold
           (cell_pairs m grid_values cols r c threshold ci ! 1 ! 1)"
  using assms
  by (cases "threshold \<le> m (grid_values + (r * cols + c))";
      cases "threshold \<le> m (grid_values + (r * cols + c + 1))";
      cases "threshold \<le> m (grid_values + ((r + 1) * cols + c + 1))";
      cases "threshold \<le> m (grid_values + ((r + 1) * cols + c))";
      cases "threshold \<le> (m (grid_values + (r * cols + c)) + m (grid_values + (r * cols + c + 1)) +
                          m (grid_values + ((r + 1) * cols + c + 1)) +
                          m (grid_values + ((r + 1) * cols + c))) / 4";
      simp add: case_index_sum cell_pairs_def EDGE_TABLE_def edge_straddles_def Let_def)

lemma cell_pairs_table:
  assumes "ci \<noteq> 5" and "ci \<noteq> 10"
  shows "cell_pairs m grid_values cols r c threshold ci = EDGE_TABLE ! nat ci"
  using assms by (simp add: cell_pairs_def)

subsection \<open>Storing a segment\<close>

lemma store_segment_other:
  "a < segments_out + n * 4 \<or> segments_out + n * 4 + 4 \<le> a \<Longrightarrow>
   store_segment segments_out n x0 y0 x1 y1 m a = m a"
  by (auto simp add: store_segment_def)

lemma store_segment_slot:
  "store_segment segments_out n x0 y0 x1 y1 m (segments_out + n * 4) = x0"
  "store_segment segments_out n x0 y0 x1 y1 m (segments_out + n * 4 + 1) = y0"
  "store_segment segments_out n x0 y0 x1 y1 m (segments_out + n * 4 + 2) = x1"
  "store_segment segments_out n x0 y0 x1 y1 m (segments_out + n * 4 + 3) = y1"
  by (simp_all add: store_segment_def)

lemma store_segment_twice_other:
  assumes "a < segments_out + n * 4 \<or> segments_out + (n + 2) * 4 \<le> a"
  shows "store_segment segments_out (n + 1) x2 y2 x3 y3
           (store_segment segments_out n x0 y0 x1 y1 m) a = m a"
  using assms by (auto simp add: store_segment_def)

lemma get_edge_point_cong:
  assumes "m' (grid_values + (r * cols + c)) = m (grid_values + (r * cols + c))"
    and "m' (grid_values + (r * cols + c + 1)) = m (grid_values + (r * cols + c + 1))"
    and "m' (grid_values + ((r + 1) * cols + c)) = m (grid_values + ((r + 1) * cols + c))"
    and "m' (grid_values + ((r + 1) * cols + c + 1)) = m (grid_values + ((r + 1) * cols + c + 1))"
  shows "get_edge_point m' grid_values cols origin_x origin_y cell_size r c edge threshold =
         get_edge_point m grid_values cols origin_x origin_y cell_size r c edge threshold"
  using assms by (simp add: get_edge_point_def)

lemma get_edge_point_store:
  assumes "corners_apart grid_values cols r c segments_out n"
  shows "get_edge_point (store_segment segments_out n x0 y0 x1 y1 m)
           grid_values cols origin_x origin_y cell_size r c edge threshold =
         get_edge_point m grid_values cols origin_x origin_y cell_size r c edge threshold"
  using assms
  by (intro get_edge_point_cong store_segment_other) (simp_all add: corners_apart_def)

lemma emit_segment_straddle:
  assumes "edge_straddles m grid_values cols r c threshold (pair ! 0)"
    and "edge_straddles m grid_values cols r c threshold (pair ! 1)"
  shows "\<exists>x0 y0 x1 y1.
           get_edge_point m grid_values cols origin_x origin_y cell_size r c (pair ! 0) threshold
             = Some (x0, y0) \<and>
           get_edge_point m grid_values cols origin_x origin_y cell_size r c (pair ! 1) threshold
             = Some (x1, y1) \<and>
           on_cell_edge origin_x origin_y cell_size r c (pair ! 0) x0 y0 \<and>
           on_cell_edge origin_x origin_y cell_size r c (pair ! 1) x1 y1 \<and>
           emit_segment grid_values cols origin_x origin_y cell_size threshold segments_out
             r c pair (m, n) = Some (store_segment segments_out n x0 y0 x1 y1 m, n + 1)"
proof -
  obtain x0 y0 where p0:
    "get_edge_point m grid_values cols origin_x origin_y cell_size r c (pair ! 0) threshold
       = Some (x0, y0)"
    "on_cell_edge origin_x origin_y cell_size r c (pair ! 0) x0 y0"
    using get_edge_point_on_edge [OF assms(1)] by blast
  obtain x1 y1 where p1:
    "get_edge_point m grid_values cols origin_x origin_y cell_size r c (pair ! 1) threshold
       = Some (x1, y1)"
    "on_cell_edge origin_x origin_y cell_size r c (pair ! 1) x1 y1"
    using get_edge_point_on_edge [OF assms(2)] by blast
  from p0 p1 show ?thesis
    by (simp add: emit_segment_def)
qed

lemma case_index_bits:
  "(bit (case_index m grid_values cols r c threshold) 3 \<longleftrightarrow>
      m (grid_values + (r * cols + c)) \<ge> threshold) \<and>
   (bit (case_index m grid_values cols r c threshold) 2 \<longleftrightarrow>
      m (grid_values + (r * cols + c + 1)) \<ge> threshold) \<and>
   (bit (case_index m grid_values cols r c threshold) 1 \<longleftrightarrow>
      m (grid_values + ((r + 1) * cols + c + 1)) \<ge> threshold) \<and>
   (bit (case_index m grid_values cols r c threshold) 0 \<longleftrightarrow>
      m (grid_values + ((r + 1) * cols + c)) \<ge> threshold)"
  by (simp add: case_index_def bit_or_iff bit_push_bit_iff bit_simps)

lemma edge_straddles_valid:
  "edge_straddles m grid_values cols r c threshold edge \<Longrightarrow> 0 \<le> edge \<and> edge \<le> 3"
  by (auto simp add: edge_straddles_def Let_def split: if_splits)

lemma get_edge_point_Some:
  assumes "0 \<le> edge" and "edge \<le> 3"
  shows "\<exists>x y. get_edge_point m grid_values cols origin_x origin_y cell_size r c edge threshold
           = Some (x, y)"
proof -
  from assms have "edge = 0 \<or> edge = 1 \<or> edge = 2 \<or> edge = 3"
    by arith
  then show ?thesis
    by (auto simp add: get_edge_point_def Let_def)
qed

lemma emit_segment_valid:
  assumes "0 \<le> pair ! 0 \<and> pair ! 0 \<le> 3" and "0 \<le> pair ! 1 \<and> pair ! 1 \<le> 3"
  shows "\<exists>x0 y0 x1 y1.
           emit_segment grid_values cols origin_x origin_y cell_size threshold segments_out
             r c pair (m, n) = Some (store_segment segments_out n x0 y0 x1 y1 m, n + 1)"
proof -
  obtain x0 y0 where p0:
    "get_edge_point m grid_values cols origin_x origin_y cell_size r c (pair ! 0) threshold
       = Some (x0, y0)"
    using get_edge_point_Some assms(1) by blast
  obtain x1 y1 where p1:
    "get_edge_point m grid_values cols origin_x origin_y cell_size r c (pair ! 1) threshold
       = Some (x1, y1)"
    using get_edge_point_Some assms(2) by blast
  from p0 p1 have
    "emit_segment grid_values cols origin_x origin_y cell_size threshold segments_out
       r c pair (m, n) = Some (store_segment segments_out n x0 y0 x1 y1 m, n + 1)"
    by (simp add: emit_segment_def)
  then show ?thesis by blast
qed

subsection \<open>What a cell stores\<close>

lemma cell_segments_cases:
  assumes "case_index m grid_values cols r c threshold = ci"
  shows "ci = 0 \<or> ci = 15 \<Longrightarrow> cell_segments m grid_values cols r c threshold = 0"
    and "ci = 5 \<or> ci = 10 \<Longrightarrow> cell_segments m grid_values cols r c threshold = 2"
    and "ci \<noteq> 0 \<and> ci \<noteq> 5 \<and> ci \<noteq> 10 \<and> ci \<noteq> 15 \<Longrightarrow>
         cell_segments m grid_values cols r c threshold = 1"
proof -
  have "0 \<le> ci \<and> ci \<le> 15"
    using assms case_index_range by blast
  then have c: "ci = 0 \<or> ci = 1 \<or> ci = 2 \<or> ci = 3 \<or> ci = 4 \<or> ci = 5 \<or> ci = 6 \<or> ci = 7 \<or>
      ci = 8 \<or> ci = 9 \<or> ci = 10 \<or> ci = 11 \<or> ci = 12 \<or> ci = 13 \<or> ci = 14 \<or> ci = 15"
    by (simp add: int_cases_16)
  show "ci = 0 \<or> ci = 15 \<Longrightarrow> cell_segments m grid_values cols r c threshold = 0"
    using assms by (auto simp add: cell_segments_def NUM_PAIRS_def)
  show "ci = 5 \<or> ci = 10 \<Longrightarrow> cell_segments m grid_values cols r c threshold = 2"
    using assms by (auto simp add: cell_segments_def NUM_PAIRS_def)
  show "ci \<noteq> 0 \<and> ci \<noteq> 5 \<and> ci \<noteq> 10 \<and> ci \<noteq> 15 \<Longrightarrow>
      cell_segments m grid_values cols r c threshold = 1"
    using assms c by (auto simp add: cell_segments_def NUM_PAIRS_def)
qed

lemma cell_segments_range:
  "0 \<le> cell_segments m grid_values cols r c threshold \<and>
   cell_segments m grid_values cols r c threshold \<le> 2"
proof -
  define ci where "ci = case_index m grid_values cols r c threshold"
  have ci: "case_index m grid_values cols r c threshold = ci"
    by (simp add: ci_def)
  consider "ci = 0 \<or> ci = 15" | "ci = 5 \<or> ci = 10"
    | "ci \<noteq> 0 \<and> ci \<noteq> 5 \<and> ci \<noteq> 10 \<and> ci \<noteq> 15"
    by blast
  then show ?thesis
    using cell_segments_cases [OF ci] by cases simp_all
qed

lemma pair_straddles:
  assumes "0 \<le> p" and "p < cell_segments m grid_values cols r c threshold"
  shows "edge_straddles m grid_values cols r c threshold
           (cell_pairs m grid_values cols r c threshold
              (case_index m grid_values cols r c threshold) ! nat p ! 0) \<and>
         edge_straddles m grid_values cols r c threshold
           (cell_pairs m grid_values cols r c threshold
              (case_index m grid_values cols r c threshold) ! nat p ! 1)"
proof -
  define ci where "ci = case_index m grid_values cols r c threshold"
  have ci: "case_index m grid_values cols r c threshold = ci"
    by (simp add: ci_def)
  consider "ci = 0 \<or> ci = 15" | "ci = 5 \<or> ci = 10"
    | "ci \<noteq> 0 \<and> ci \<noteq> 5 \<and> ci \<noteq> 10 \<and> ci \<noteq> 15"
    by blast
  then show ?thesis
  proof cases
    case 1
    with assms cell_segments_cases(1) [OF ci] show ?thesis by simp
  next
    case 2
    with assms cell_segments_cases(2) [OF ci] have "p = 0 \<or> p = 1" by auto
    moreover from 2 have "ci \<noteq> 0" "ci \<noteq> 15" by auto
    ultimately show ?thesis
      using cell_pairs_first [OF ci] cell_pairs_second [OF ci 2]
      unfolding ci by auto
  next
    case 3
    with assms cell_segments_cases(3) [OF ci] have "p = 0" by auto
    moreover from 3 have "ci \<noteq> 0" "ci \<noteq> 15" by auto
    ultimately show ?thesis
      using cell_pairs_first [OF ci] unfolding ci by auto
  qed
qed

lemma pair_stored_store:
  assumes "get_edge_point m grid_values cols origin_x origin_y cell_size r c
             (cell_pairs m grid_values cols r c threshold
                (case_index m grid_values cols r c threshold) ! nat p ! 0) threshold
           = Some (x0, y0)"
    and "get_edge_point m grid_values cols origin_x origin_y cell_size r c
             (cell_pairs m grid_values cols r c threshold
                (case_index m grid_values cols r c threshold) ! nat p ! 1) threshold
           = Some (x1, y1)"
  shows "pair_stored m (store_segment segments_out k x0 y0 x1 y1 m'')
           grid_values cols origin_x origin_y cell_size threshold segments_out r c p k"
  using assms by (simp add: pair_stored_def Let_def store_segment_slot)

lemma pair_stored_cong:
  assumes "\<forall>a. segments_out + k * 4 \<le> a \<and> a < segments_out + k * 4 + 4 \<longrightarrow> m'' a = m' a"
  shows "pair_stored m m'' grid_values cols origin_x origin_y cell_size threshold
           segments_out r c p k =
         pair_stored m m' grid_values cols origin_x origin_y cell_size threshold
           segments_out r c p k"
  using assms by (simp add: pair_stored_def)

lemma marching_squares_cell_stores:
  "\<exists>m'. marching_squares_cell grid_values cols origin_x origin_y cell_size threshold
           segments_out r c (m, n) =
         Some (m', n + cell_segments m grid_values cols r c threshold) \<and>
        (\<forall>a. a < segments_out + n * 4 \<or>
             segments_out + (n + cell_segments m grid_values cols r c threshold) * 4 \<le> a \<longrightarrow>
             m' a = m a) \<and>
        (0 < cell_segments m grid_values cols r c threshold \<longrightarrow>
           pair_stored m m' grid_values cols origin_x origin_y cell_size threshold
             segments_out r c 0 n) \<and>
        (1 < cell_segments m grid_values cols r c threshold \<and>
         corners_apart grid_values cols r c segments_out n \<longrightarrow>
           pair_stored m m' grid_values cols origin_x origin_y cell_size threshold
             segments_out r c 1 (n + 1))"
proof -
  define ci where "ci = case_index m grid_values cols r c threshold"
  have ci: "case_index m grid_values cols r c threshold = ci"
    by (simp add: ci_def)
  let ?pairs = "cell_pairs m grid_values cols r c threshold ci"
  note cnt = cell_segments_cases [OF ci]
  consider "ci = 0 \<or> ci = 15" | "ci = 5 \<or> ci = 10"
    | "ci \<noteq> 0 \<and> ci \<noteq> 5 \<and> ci \<noteq> 10 \<and> ci \<noteq> 15"
    by blast
  then show ?thesis
  proof cases
    case 1
    then show ?thesis
      using ci cnt(1) by (simp add: marching_squares_cell_skip)
  next
    case 2
    then have ne: "ci \<noteq> 0" "ci \<noteq> 15" by auto
    have st0: "edge_straddles m grid_values cols r c threshold (?pairs ! 0 ! 0)"
      "edge_straddles m grid_values cols r c threshold (?pairs ! 0 ! 1)"
      using cell_pairs_first [OF ci ne] by blast+
    obtain x0 y0 x1 y1 where e0:
      "get_edge_point m grid_values cols origin_x origin_y cell_size r c (?pairs ! 0 ! 0)
         threshold = Some (x0, y0)"
      "get_edge_point m grid_values cols origin_x origin_y cell_size r c (?pairs ! 0 ! 1)
         threshold = Some (x1, y1)"
      "emit_segment grid_values cols origin_x origin_y cell_size threshold segments_out
         r c (?pairs ! 0) (m, n) = Some (store_segment segments_out n x0 y0 x1 y1 m, n + 1)"
      using emit_segment_straddle [OF st0] by blast
    let ?m1 = "store_segment segments_out n x0 y0 x1 y1 m"
    have v1: "0 \<le> ?pairs ! 1 ! 0 \<and> ?pairs ! 1 ! 0 \<le> 3" "0 \<le> ?pairs ! 1 ! 1 \<and> ?pairs ! 1 ! 1 \<le> 3"
      using cell_pairs_second [OF ci 2] edge_straddles_valid by blast+
    obtain x2 y2 where p2:
      "get_edge_point ?m1 grid_values cols origin_x origin_y cell_size r c (?pairs ! 1 ! 0)
         threshold = Some (x2, y2)"
      using get_edge_point_Some v1(1) by blast
    obtain x3 y3 where p3:
      "get_edge_point ?m1 grid_values cols origin_x origin_y cell_size r c (?pairs ! 1 ! 1)
         threshold = Some (x3, y3)"
      using get_edge_point_Some v1(2) by blast
    let ?m2 = "store_segment segments_out (n + 1) x2 y2 x3 y3 ?m1"
    have e1: "emit_segment grid_values cols origin_x origin_y cell_size threshold segments_out
        r c (?pairs ! 1) (?m1, n + 1) = Some (?m2, n + 1 + 1)"
      using p2 p3 by (simp add: emit_segment_def)
    have res: "marching_squares_cell grid_values cols origin_x origin_y cell_size threshold
        segments_out r c (m, n) = Some (?m2, n + 2)"
      using e0(3) e1 by (simp add: marching_squares_cell_saddle [OF ci 2])
    have frame: "\<forall>a. a < segments_out + n * 4 \<or> segments_out + (n + 2) * 4 \<le> a \<longrightarrow> ?m2 a = m a"
      by (simp add: store_segment_twice_other)
    have "pair_stored m ?m1 grid_values cols origin_x origin_y cell_size threshold
        segments_out r c 0 n"
      using e0(1,2) unfolding ci [symmetric] by (intro pair_stored_store) simp_all
    then have s0: "pair_stored m ?m2 grid_values cols origin_x origin_y cell_size threshold
        segments_out r c 0 n"
      by (subst pair_stored_cong [where m' = ?m1]) (simp_all add: store_segment_other)
    have s1: "pair_stored m ?m2 grid_values cols origin_x origin_y cell_size threshold
        segments_out r c 1 (n + 1)" if ap: "corners_apart grid_values cols r c segments_out n"
    proof -
      from p2 p3 have
        "get_edge_point m grid_values cols origin_x origin_y cell_size r c (?pairs ! 1 ! 0)
           threshold = Some (x2, y2)"
        "get_edge_point m grid_values cols origin_x origin_y cell_size r c (?pairs ! 1 ! 1)
           threshold = Some (x3, y3)"
        by (simp_all add: get_edge_point_store [OF ap])
      then show ?thesis
        unfolding ci [symmetric] by (intro pair_stored_store) simp_all
    qed
    from res frame s0 s1 show ?thesis
      using cnt(2) [OF 2] by simp
  next
    case 3
    then have ne: "ci \<noteq> 0" "ci \<noteq> 15" "ci \<noteq> 5" "ci \<noteq> 10" by auto
    have st0: "edge_straddles m grid_values cols r c threshold (?pairs ! 0 ! 0)"
      "edge_straddles m grid_values cols r c threshold (?pairs ! 0 ! 1)"
      using cell_pairs_first [OF ci ne(1,2)] by blast+
    have t: "?pairs = EDGE_TABLE ! nat ci"
      using ne by (simp add: cell_pairs_table)
    obtain x0 y0 x1 y1 where e0:
      "get_edge_point m grid_values cols origin_x origin_y cell_size r c (?pairs ! 0 ! 0)
         threshold = Some (x0, y0)"
      "get_edge_point m grid_values cols origin_x origin_y cell_size r c (?pairs ! 0 ! 1)
         threshold = Some (x1, y1)"
      "emit_segment grid_values cols origin_x origin_y cell_size threshold segments_out
         r c (?pairs ! 0) (m, n) = Some (store_segment segments_out n x0 y0 x1 y1 m, n + 1)"
      using emit_segment_straddle [OF st0] by blast
    let ?m1 = "store_segment segments_out n x0 y0 x1 y1 m"
    have res: "marching_squares_cell grid_values cols origin_x origin_y cell_size threshold
        segments_out r c (m, n) = Some (?m1, n + 1)"
      using e0(3) by (simp add: marching_squares_cell_single [OF ci ne(1,3,4,2)] t)
    have frame: "\<forall>a. a < segments_out + n * 4 \<or> segments_out + (n + 1) * 4 \<le> a \<longrightarrow> ?m1 a = m a"
      by (simp add: store_segment_other)
    have s0: "pair_stored m ?m1 grid_values cols origin_x origin_y cell_size threshold
        segments_out r c 0 n"
      using e0(1,2) unfolding ci [symmetric] by (intro pair_stored_store) simp_all
    from res frame s0 show ?thesis
      using cnt(3) [OF 3] by simp
  qed
qed

lemma pair_stored_on_edges:
  assumes st: "pair_stored m m' grid_values cols origin_x origin_y cell_size threshold
             segments_out r c p k"
    and p: "0 \<le> p" "p < cell_segments m grid_values cols r c threshold"
  shows "on_cell_edge origin_x origin_y cell_size r c
           (cell_pairs m grid_values cols r c threshold
              (case_index m grid_values cols r c threshold) ! nat p ! 0)
           (m' (segments_out + k * 4)) (m' (segments_out + k * 4 + 1)) \<and>
         on_cell_edge origin_x origin_y cell_size r c
           (cell_pairs m grid_values cols r c threshold
              (case_index m grid_values cols r c threshold) ! nat p ! 1)
           (m' (segments_out + k * 4 + 2)) (m' (segments_out + k * 4 + 3))"
proof -
  let ?pair = "cell_pairs m grid_values cols r c threshold
      (case_index m grid_values cols r c threshold) ! nat p"
  from pair_straddles [OF p] have s:
    "edge_straddles m grid_values cols r c threshold (?pair ! 0)"
    "edge_straddles m grid_values cols r c threshold (?pair ! 1)"
    by blast+
  from st have g:
    "get_edge_point m grid_values cols origin_x origin_y cell_size r c (?pair ! 0) threshold =
       Some (m' (segments_out + k * 4), m' (segments_out + k * 4 + 1))"
    "get_edge_point m grid_values cols origin_x origin_y cell_size r c (?pair ! 1) threshold =
       Some (m' (segments_out + k * 4 + 2), m' (segments_out + k * 4 + 3))"
    by (simp_all add: pair_stored_def Let_def)
  from get_edge_point_on_edge [OF s(1), of origin_x origin_y cell_size] g(1)
  have "on_cell_edge origin_x origin_y cell_size r c (?pair ! 0)
      (m' (segments_out + k * 4)) (m' (segments_out + k * 4 + 1))"
    by auto
  moreover from get_edge_point_on_edge [OF s(2), of origin_x origin_y cell_size] g(2)
  have "on_cell_edge origin_x origin_y cell_size r c (?pair ! 1)
      (m' (segments_out + k * 4 + 2)) (m' (segments_out + k * 4 + 3))"
    by auto
  ultimately show ?thesis by simp
qed

subsection \<open>The sixteen cases and the saddles\<close>

text \<open>
  Claim C5. For the cell \<open>(r, c)\<close> the case index has the top-left corner as bit 3, the
  top-right as bit 2, the bottom-right as bit 1 and the bottom-left as bit 0, a corner
  being inside exactly when its value is at least the threshold. The cases 0 and 15
  leave the memory and the count as they are. The cases 5 and 10 add 2 to the count and
  change the eight floats of the slots \<open>n\<close> and \<open>n + 1\<close> of \<^verbatim>\<open>segments_out\<close> only:
  slot \<open>n\<close> holds the points of the two edges of the cell's first pair, which lie on those
  edges, and slot \<open>n + 1\<close> those of its second pair when the corners of the cell are
  not floats of slot \<open>n\<close>. Every other case adds 1 to the count and changes the four
  floats of slot \<open>n\<close> only, which holds the points of the two edges in the first pair of
  the table's row; the two points lie on those edges.
\<close>

theorem marching_squares_cell_cases:
  "let ci = case_index m grid_values cols r c threshold;
       pairs = cell_pairs m grid_values cols r c threshold ci
   in (bit ci 3 \<longleftrightarrow> m (grid_values + (r * cols + c)) \<ge> threshold) \<and>
      (bit ci 2 \<longleftrightarrow> m (grid_values + (r * cols + c + 1)) \<ge> threshold) \<and>
      (bit ci 1 \<longleftrightarrow> m (grid_values + ((r + 1) * cols + c + 1)) \<ge> threshold) \<and>
      (bit ci 0 \<longleftrightarrow> m (grid_values + ((r + 1) * cols + c)) \<ge> threshold) \<and>
      0 \<le> ci \<and> ci \<le> 15 \<and>
      (ci = 0 \<or> ci = 15 \<longrightarrow>
         marching_squares_cell grid_values cols origin_x origin_y cell_size threshold
           segments_out r c (m, n) = Some (m, n)) \<and>
      (ci = 5 \<or> ci = 10 \<longrightarrow>
         (\<exists>m'. marching_squares_cell grid_values cols origin_x origin_y cell_size threshold
                 segments_out r c (m, n) = Some (m', n + 2) \<and>
               (\<forall>a. a < segments_out + n * 4 \<or> segments_out + (n + 2) * 4 \<le> a \<longrightarrow>
                    m' a = m a) \<and>
               get_edge_point m grid_values cols origin_x origin_y cell_size r c
                 (pairs ! 0 ! 0) threshold =
                 Some (m' (segments_out + n * 4), m' (segments_out + n * 4 + 1)) \<and>
               get_edge_point m grid_values cols origin_x origin_y cell_size r c
                 (pairs ! 0 ! 1) threshold =
                 Some (m' (segments_out + n * 4 + 2), m' (segments_out + n * 4 + 3)) \<and>
               on_cell_edge origin_x origin_y cell_size r c (pairs ! 0 ! 0)
                 (m' (segments_out + n * 4)) (m' (segments_out + n * 4 + 1)) \<and>
               on_cell_edge origin_x origin_y cell_size r c (pairs ! 0 ! 1)
                 (m' (segments_out + n * 4 + 2)) (m' (segments_out + n * 4 + 3)) \<and>
               (corners_apart grid_values cols r c segments_out n \<longrightarrow>
                  get_edge_point m grid_values cols origin_x origin_y cell_size r c
                    (pairs ! 1 ! 0) threshold =
                    Some (m' (segments_out + (n + 1) * 4),
                          m' (segments_out + (n + 1) * 4 + 1)) \<and>
                  get_edge_point m grid_values cols origin_x origin_y cell_size r c
                    (pairs ! 1 ! 1) threshold =
                    Some (m' (segments_out + (n + 1) * 4 + 2),
                          m' (segments_out + (n + 1) * 4 + 3)) \<and>
                  on_cell_edge origin_x origin_y cell_size r c (pairs ! 1 ! 0)
                    (m' (segments_out + (n + 1) * 4)) (m' (segments_out + (n + 1) * 4 + 1)) \<and>
                  on_cell_edge origin_x origin_y cell_size r c (pairs ! 1 ! 1)
                    (m' (segments_out + (n + 1) * 4 + 2))
                    (m' (segments_out + (n + 1) * 4 + 3))))) \<and>
      (ci \<noteq> 0 \<and> ci \<noteq> 5 \<and> ci \<noteq> 10 \<and> ci \<noteq> 15 \<longrightarrow>
         (\<exists>m'. marching_squares_cell grid_values cols origin_x origin_y cell_size threshold
                 segments_out r c (m, n) = Some (m', n + 1) \<and>
               (\<forall>a. a < segments_out + n * 4 \<or> segments_out + (n + 1) * 4 \<le> a \<longrightarrow>
                    m' a = m a) \<and>
               get_edge_point m grid_values cols origin_x origin_y cell_size r c
                 (EDGE_TABLE ! nat ci ! 0 ! 0) threshold =
                 Some (m' (segments_out + n * 4), m' (segments_out + n * 4 + 1)) \<and>
               get_edge_point m grid_values cols origin_x origin_y cell_size r c
                 (EDGE_TABLE ! nat ci ! 0 ! 1) threshold =
                 Some (m' (segments_out + n * 4 + 2), m' (segments_out + n * 4 + 3)) \<and>
               on_cell_edge origin_x origin_y cell_size r c (EDGE_TABLE ! nat ci ! 0 ! 0)
                 (m' (segments_out + n * 4)) (m' (segments_out + n * 4 + 1)) \<and>
               on_cell_edge origin_x origin_y cell_size r c (EDGE_TABLE ! nat ci ! 0 ! 1)
                 (m' (segments_out + n * 4 + 2)) (m' (segments_out + n * 4 + 3))))"
proof -
  define ci where "ci = case_index m grid_values cols r c threshold"
  define pairs where "pairs = cell_pairs m grid_values cols r c threshold ci"
  have ci: "case_index m grid_values cols r c threshold = ci"
    by (simp add: ci_def)
  have pairs: "cell_pairs m grid_values cols r c threshold
      (case_index m grid_values cols r c threshold) = pairs"
    by (simp add: pairs_def ci_def)
  note cnt = cell_segments_cases [OF ci]
  have bits:
    "(bit ci 3 \<longleftrightarrow> m (grid_values + (r * cols + c)) \<ge> threshold) \<and>
     (bit ci 2 \<longleftrightarrow> m (grid_values + (r * cols + c + 1)) \<ge> threshold) \<and>
     (bit ci 1 \<longleftrightarrow> m (grid_values + ((r + 1) * cols + c + 1)) \<ge> threshold) \<and>
     (bit ci 0 \<longleftrightarrow> m (grid_values + ((r + 1) * cols + c)) \<ge> threshold)"
    unfolding ci_def by (rule case_index_bits)
  have range: "0 \<le> ci \<and> ci \<le> 15"
    unfolding ci_def by (rule case_index_range)
  have skip: "marching_squares_cell grid_values cols origin_x origin_y cell_size threshold
      segments_out r c (m, n) = Some (m, n)" if "ci = 0 \<or> ci = 15"
    using that ci by (simp add: marching_squares_cell_skip)
  obtain m' where cell:
    "marching_squares_cell grid_values cols origin_x origin_y cell_size threshold
       segments_out r c (m, n) =
     Some (m', n + cell_segments m grid_values cols r c threshold)"
    "\<forall>a. a < segments_out + n * 4 \<or>
         segments_out + (n + cell_segments m grid_values cols r c threshold) * 4 \<le> a \<longrightarrow>
         m' a = m a"
    "0 < cell_segments m grid_values cols r c threshold \<longrightarrow>
       pair_stored m m' grid_values cols origin_x origin_y cell_size threshold
         segments_out r c 0 n"
    "1 < cell_segments m grid_values cols r c threshold \<and>
     corners_apart grid_values cols r c segments_out n \<longrightarrow>
       pair_stored m m' grid_values cols origin_x origin_y cell_size threshold
         segments_out r c 1 (n + 1)"
    using marching_squares_cell_stores by blast
  have first:
    "get_edge_point m grid_values cols origin_x origin_y cell_size r c (pairs ! 0 ! 0)
       threshold = Some (m' (segments_out + n * 4), m' (segments_out + n * 4 + 1)) \<and>
     get_edge_point m grid_values cols origin_x origin_y cell_size r c (pairs ! 0 ! 1)
       threshold = Some (m' (segments_out + n * 4 + 2), m' (segments_out + n * 4 + 3)) \<and>
     on_cell_edge origin_x origin_y cell_size r c (pairs ! 0 ! 0)
       (m' (segments_out + n * 4)) (m' (segments_out + n * 4 + 1)) \<and>
     on_cell_edge origin_x origin_y cell_size r c (pairs ! 0 ! 1)
       (m' (segments_out + n * 4 + 2)) (m' (segments_out + n * 4 + 3))"
    if pos: "0 < cell_segments m grid_values cols r c threshold"
  proof -
    from cell(3) pos have st: "pair_stored m m' grid_values cols origin_x origin_y cell_size
        threshold segments_out r c 0 n"
      by simp
    from pair_stored_on_edges [OF st _ pos] st show ?thesis
      by (simp add: pair_stored_def Let_def pairs)
  qed
  have second:
    "get_edge_point m grid_values cols origin_x origin_y cell_size r c (pairs ! 1 ! 0)
       threshold =
       Some (m' (segments_out + (n + 1) * 4), m' (segments_out + (n + 1) * 4 + 1)) \<and>
     get_edge_point m grid_values cols origin_x origin_y cell_size r c (pairs ! 1 ! 1)
       threshold =
       Some (m' (segments_out + (n + 1) * 4 + 2), m' (segments_out + (n + 1) * 4 + 3)) \<and>
     on_cell_edge origin_x origin_y cell_size r c (pairs ! 1 ! 0)
       (m' (segments_out + (n + 1) * 4)) (m' (segments_out + (n + 1) * 4 + 1)) \<and>
     on_cell_edge origin_x origin_y cell_size r c (pairs ! 1 ! 1)
       (m' (segments_out + (n + 1) * 4 + 2)) (m' (segments_out + (n + 1) * 4 + 3))"
    if two: "1 < cell_segments m grid_values cols r c threshold"
      and ap: "corners_apart grid_values cols r c segments_out n"
  proof -
    from cell(4) two ap have st: "pair_stored m m' grid_values cols origin_x origin_y cell_size
        threshold segments_out r c 1 (n + 1)"
      by simp
    from pair_stored_on_edges [OF st _ two] st show ?thesis
      by (simp add: pair_stored_def Let_def pairs)
  qed
  have saddle: "\<exists>m'. marching_squares_cell grid_values cols origin_x origin_y cell_size threshold
         segments_out r c (m, n) = Some (m', n + 2) \<and>
       (\<forall>a. a < segments_out + n * 4 \<or> segments_out + (n + 2) * 4 \<le> a \<longrightarrow> m' a = m a) \<and>
       get_edge_point m grid_values cols origin_x origin_y cell_size r c
         (pairs ! 0 ! 0) threshold =
         Some (m' (segments_out + n * 4), m' (segments_out + n * 4 + 1)) \<and>
       get_edge_point m grid_values cols origin_x origin_y cell_size r c
         (pairs ! 0 ! 1) threshold =
         Some (m' (segments_out + n * 4 + 2), m' (segments_out + n * 4 + 3)) \<and>
       on_cell_edge origin_x origin_y cell_size r c (pairs ! 0 ! 0)
         (m' (segments_out + n * 4)) (m' (segments_out + n * 4 + 1)) \<and>
       on_cell_edge origin_x origin_y cell_size r c (pairs ! 0 ! 1)
         (m' (segments_out + n * 4 + 2)) (m' (segments_out + n * 4 + 3)) \<and>
       (corners_apart grid_values cols r c segments_out n \<longrightarrow>
          get_edge_point m grid_values cols origin_x origin_y cell_size r c
            (pairs ! 1 ! 0) threshold =
            Some (m' (segments_out + (n + 1) * 4),
                  m' (segments_out + (n + 1) * 4 + 1)) \<and>
          get_edge_point m grid_values cols origin_x origin_y cell_size r c
            (pairs ! 1 ! 1) threshold =
            Some (m' (segments_out + (n + 1) * 4 + 2),
                  m' (segments_out + (n + 1) * 4 + 3)) \<and>
          on_cell_edge origin_x origin_y cell_size r c (pairs ! 1 ! 0)
            (m' (segments_out + (n + 1) * 4)) (m' (segments_out + (n + 1) * 4 + 1)) \<and>
          on_cell_edge origin_x origin_y cell_size r c (pairs ! 1 ! 1)
            (m' (segments_out + (n + 1) * 4 + 2))
            (m' (segments_out + (n + 1) * 4 + 3)))"
    if s: "ci = 5 \<or> ci = 10"
  proof -
    have two: "cell_segments m grid_values cols r c threshold = 2"
      using cnt(2) [OF s] .
    from cell(1,2) have "marching_squares_cell grid_values cols origin_x origin_y cell_size
        threshold segments_out r c (m, n) = Some (m', n + 2)"
      "\<forall>a. a < segments_out + n * 4 \<or> segments_out + (n + 2) * 4 \<le> a \<longrightarrow> m' a = m a"
      by (simp_all only: two)
    moreover have "0 < cell_segments m grid_values cols r c threshold"
      "1 < cell_segments m grid_values cols r c threshold"
      by (simp_all add: two)
    ultimately show ?thesis
      using first second by blast
  qed
  have single: "\<exists>m'. marching_squares_cell grid_values cols origin_x origin_y cell_size threshold
         segments_out r c (m, n) = Some (m', n + 1) \<and>
       (\<forall>a. a < segments_out + n * 4 \<or> segments_out + (n + 1) * 4 \<le> a \<longrightarrow> m' a = m a) \<and>
       get_edge_point m grid_values cols origin_x origin_y cell_size r c
         (EDGE_TABLE ! nat ci ! 0 ! 0) threshold =
         Some (m' (segments_out + n * 4), m' (segments_out + n * 4 + 1)) \<and>
       get_edge_point m grid_values cols origin_x origin_y cell_size r c
         (EDGE_TABLE ! nat ci ! 0 ! 1) threshold =
         Some (m' (segments_out + n * 4 + 2), m' (segments_out + n * 4 + 3)) \<and>
       on_cell_edge origin_x origin_y cell_size r c (EDGE_TABLE ! nat ci ! 0 ! 0)
         (m' (segments_out + n * 4)) (m' (segments_out + n * 4 + 1)) \<and>
       on_cell_edge origin_x origin_y cell_size r c (EDGE_TABLE ! nat ci ! 0 ! 1)
         (m' (segments_out + n * 4 + 2)) (m' (segments_out + n * 4 + 3))"
    if s: "ci \<noteq> 0 \<and> ci \<noteq> 5 \<and> ci \<noteq> 10 \<and> ci \<noteq> 15"
  proof -
    have one: "cell_segments m grid_values cols r c threshold = 1"
      using cnt(3) [OF s] .
    have t: "pairs = EDGE_TABLE ! nat ci"
      using s by (simp add: pairs_def cell_pairs_table)
    from cell(1,2) have "marching_squares_cell grid_values cols origin_x origin_y cell_size
        threshold segments_out r c (m, n) = Some (m', n + 1)"
      "\<forall>a. a < segments_out + n * 4 \<or> segments_out + (n + 1) * 4 \<le> a \<longrightarrow> m' a = m a"
      by (simp_all only: one)
    moreover have "0 < cell_segments m grid_values cols r c threshold"
      by (simp add: one)
    ultimately show ?thesis
      using first unfolding t by blast
  qed
  from bits range skip saddle single show ?thesis
    unfolding Let_def ci pairs_def [symmetric] by blast
qed

theorem marching_squares_cell_cases_witness:
  "case_index ((\<lambda>a. 0)(3 := 1)) 0 2 0 0 (1 / 2) = 2 \<and>
   (\<exists>m'. marching_squares_cell 0 2 0 0 2 (1 / 2) 10 0 0 ((\<lambda>a. 0)(3 := 1), 0) = Some (m', 1) \<and>
      m' 10 = 1 \<and> m' 11 = 2 \<and> m' 12 = 2 \<and> m' 13 = 1 \<and> m' 3 = 1 \<and> m' 14 = 0) \<and>
   case_index (\<lambda>a. 0) 0 2 0 0 (1 / 2) = 0 \<and>
   marching_squares_cell 0 2 0 0 2 (1 / 2) 10 0 0 (\<lambda>a. 0, 0) = Some (\<lambda>a. 0, 0) \<and>
   case_index ((\<lambda>a. 0)(1 := 1, 2 := 1)) 0 2 0 0 (1 / 2) = 5 \<and>
   corners_apart 0 2 0 0 10 0 \<and>
   (\<exists>m'. marching_squares_cell 0 2 0 0 2 (1 / 2) 10 0 0 ((\<lambda>a. 0)(1 := 1, 2 := 1), 0) =
      Some (m', 2) \<and>
      m' 10 = 0 \<and> m' 11 = 1 \<and> m' 12 = 1 \<and> m' 13 = 2 \<and>
      m' 14 = 2 \<and> m' 15 = 1 \<and> m' 16 = 1 \<and> m' 17 = 0 \<and> m' 18 = 0)"
proof -
  have c1: "case_index ((\<lambda>a. 0)(3 := 1)) 0 2 0 0 (1 / 2) = 2"
    by (simp add: case_index_sum)
  have c2: "case_index (\<lambda>a. 0) 0 2 0 0 (1 / 2) = 0"
    by (simp add: case_index_sum)
  have c3: "case_index ((\<lambda>a. 0)(1 := 1, 2 := 1)) 0 2 0 0 (1 / 2) = 5"
    by (simp add: case_index_sum)
  have ap: "corners_apart 0 2 0 0 10 0"
    by (simp add: corners_apart_def)
  have g:
    "get_edge_point ((\<lambda>a. 0)(3 := 1)) 0 2 0 0 2 0 0 2 (1 / 2) = Some (1, 2)"
    "get_edge_point ((\<lambda>a. 0)(3 := 1)) 0 2 0 0 2 0 0 1 (1 / 2) = Some (2, 1)"
    by (simp_all add: get_edge_point_def lerp1d_def)
  have g5:
    "get_edge_point ((\<lambda>a. 0)(1 := 1, 2 := 1)) 0 2 0 0 2 0 0 0 (1 / 2) = Some (1, 0)"
    "get_edge_point ((\<lambda>a. 0)(1 := 1, 2 := 1)) 0 2 0 0 2 0 0 1 (1 / 2) = Some (2, 1)"
    "get_edge_point ((\<lambda>a. 0)(1 := 1, 2 := 1)) 0 2 0 0 2 0 0 2 (1 / 2) = Some (1, 2)"
    "get_edge_point ((\<lambda>a. 0)(1 := 1, 2 := 1)) 0 2 0 0 2 0 0 3 (1 / 2) = Some (0, 1)"
    by (simp_all add: get_edge_point_def lerp1d_def)
  have p5: "cell_pairs ((\<lambda>a. 0)(1 := 1, 2 := 1)) 0 2 0 0 (1 / 2) 5 = [[3, 2], [1, 0]]"
    by (simp add: cell_pairs_def)
  have s1: "\<exists>m'. marching_squares_cell 0 2 0 0 2 (1 / 2) 10 0 0 ((\<lambda>a. 0)(3 := 1), 0) =
      Some (m', 1) \<and>
      m' 10 = 1 \<and> m' 11 = 2 \<and> m' 12 = 2 \<and> m' 13 = 1 \<and> m' 3 = 1 \<and> m' 14 = 0"
    using marching_squares_cell_cases [of "(\<lambda>a. 0)(3 := 1)" 0 2 0 0 "1 / 2" 0 0 2 10 0]
    by (simp add: Let_def c1 EDGE_TABLE_def g) fastforce
  have s2: "marching_squares_cell 0 2 0 0 2 (1 / 2) 10 0 0 (\<lambda>a. 0, 0) = Some (\<lambda>a. 0, 0)"
    using marching_squares_cell_cases [of "\<lambda>a. 0" 0 2 0 0 "1 / 2" 0 0 2 10 0]
    by (simp add: Let_def c2)
  have s3: "\<exists>m'. marching_squares_cell 0 2 0 0 2 (1 / 2) 10 0 0
        ((\<lambda>a. 0)(1 := 1, 2 := 1), 0) = Some (m', 2) \<and>
      m' 10 = 0 \<and> m' 11 = 1 \<and> m' 12 = 1 \<and> m' 13 = 2 \<and>
      m' 14 = 2 \<and> m' 15 = 1 \<and> m' 16 = 1 \<and> m' 17 = 0 \<and> m' 18 = 0"
    using marching_squares_cell_cases [of "(\<lambda>a. 0)(1 := 1, 2 := 1)" 0 2 0 0 "1 / 2" 0 0 2 10 0]
    by (simp add: Let_def c3 p5 g5 ap) fastforce
  from c1 c2 c3 ap s1 s2 s3 show ?thesis by blast
qed

text \<open>
  Claim C1. For a saddle cell (case index 5 or 10) the average of the four corner values
  decides the pairing: in case 5 the two segments join the edges (3, 2) and (1, 0) when
  the average is at least the threshold and (3, 0) and (1, 2) otherwise; in case 10 they
  join (0, 3) and (2, 1) when the average is at least the threshold and (0, 1) and (2, 3)
  otherwise (0 is the top, 1 the right, 2 the bottom, 3 the left edge). The cell emits the
  segment of the first pair and then the segment of the second, adds 2 to the count and
  changes the eight floats of the slots \<open>n\<close> and \<open>n + 1\<close> of \<^verbatim>\<open>segments_out\<close> only.
  In the memory it leaves, slot \<open>n\<close> holds the points of the two edges of the first pair.
  The second segment is computed after the first is stored: slot \<open>n + 1\<close> holds the
  points of the two edges of the second pair, as the starting memory gives them, when the
  corners of the cell are not floats of slot \<open>n\<close>.
\<close>

theorem saddle_pairing:
  assumes "case_index m grid_values cols r c threshold = ci"
    and "ci = 5 \<or> ci = 10"
  shows "let center = (m (grid_values + (r * cols + c)) + m (grid_values + (r * cols + c + 1)) +
                       m (grid_values + ((r + 1) * cols + c + 1)) +
                       m (grid_values + ((r + 1) * cols + c))) / 4;
             pairs = (if ci = 5 then
                        (if center \<ge> threshold then [[3, 2], [1, 0]] else [[3, 0], [1, 2]])
                      else
                        (if center \<ge> threshold then [[0, 3], [2, 1]] else [[0, 1], [2, 3]]))
         in marching_squares_cell grid_values cols origin_x origin_y cell_size threshold
              segments_out r c (m, n) =
            Option.bind
              (emit_segment grid_values cols origin_x origin_y cell_size threshold
                 segments_out r c (pairs ! 0) (m, n))
              (emit_segment grid_values cols origin_x origin_y cell_size threshold
                 segments_out r c (pairs ! 1)) \<and>
            (\<exists>m'. marching_squares_cell grid_values cols origin_x origin_y cell_size threshold
                    segments_out r c (m, n) = Some (m', n + 2) \<and>
                  (\<forall>a. a < segments_out + n * 4 \<or> segments_out + (n + 2) * 4 \<le> a \<longrightarrow>
                       m' a = m a) \<and>
                  get_edge_point m grid_values cols origin_x origin_y cell_size r c
                    (pairs ! 0 ! 0) threshold =
                    Some (m' (segments_out + n * 4), m' (segments_out + n * 4 + 1)) \<and>
                  get_edge_point m grid_values cols origin_x origin_y cell_size r c
                    (pairs ! 0 ! 1) threshold =
                    Some (m' (segments_out + n * 4 + 2), m' (segments_out + n * 4 + 3)) \<and>
                  (corners_apart grid_values cols r c segments_out n \<longrightarrow>
                     get_edge_point m grid_values cols origin_x origin_y cell_size r c
                       (pairs ! 1 ! 0) threshold =
                       Some (m' (segments_out + (n + 1) * 4),
                             m' (segments_out + (n + 1) * 4 + 1)) \<and>
                     get_edge_point m grid_values cols origin_x origin_y cell_size r c
                       (pairs ! 1 ! 1) threshold =
                       Some (m' (segments_out + (n + 1) * 4 + 2),
                             m' (segments_out + (n + 1) * 4 + 3))))"
proof -
  define center where "center =
    (m (grid_values + (r * cols + c)) + m (grid_values + (r * cols + c + 1)) +
     m (grid_values + ((r + 1) * cols + c + 1)) + m (grid_values + ((r + 1) * cols + c))) / 4"
  define pairs :: "int list list" where "pairs =
    (if ci = 5 then (if center \<ge> threshold then [[3, 2], [1, 0]] else [[3, 0], [1, 2]])
     else (if center \<ge> threshold then [[0, 3], [2, 1]] else [[0, 1], [2, 3]]))"
  have cp: "cell_pairs m grid_values cols r c threshold ci = pairs"
    using assms(2) by (auto simp add: cell_pairs_def pairs_def center_def Let_def)
  have cp': "cell_pairs m grid_values cols r c threshold
      (case_index m grid_values cols r c threshold) = pairs"
    by (simp only: assms(1) cp)
  have two: "cell_segments m grid_values cols r c threshold = 2"
    using cell_segments_cases(2) [OF assms] .
  have bind: "marching_squares_cell grid_values cols origin_x origin_y cell_size threshold
      segments_out r c (m, n) =
    Option.bind
      (emit_segment grid_values cols origin_x origin_y cell_size threshold
         segments_out r c (pairs ! 0) (m, n))
      (emit_segment grid_values cols origin_x origin_y cell_size threshold
         segments_out r c (pairs ! 1))"
    by (simp only: marching_squares_cell_saddle [OF assms] cp)
  obtain m' where cell:
    "marching_squares_cell grid_values cols origin_x origin_y cell_size threshold
       segments_out r c (m, n) = Some (m', n + 2)"
    "\<forall>a. a < segments_out + n * 4 \<or> segments_out + (n + 2) * 4 \<le> a \<longrightarrow> m' a = m a"
    "pair_stored m m' grid_values cols origin_x origin_y cell_size threshold
       segments_out r c 0 n"
    "corners_apart grid_values cols r c segments_out n \<longrightarrow>
       pair_stored m m' grid_values cols origin_x origin_y cell_size threshold
         segments_out r c 1 (n + 1)"
    using marching_squares_cell_stores
      [of grid_values cols origin_x origin_y cell_size threshold segments_out r c m n]
    unfolding two by auto
  from cell(3) have first:
    "get_edge_point m grid_values cols origin_x origin_y cell_size r c (pairs ! 0 ! 0)
       threshold = Some (m' (segments_out + n * 4), m' (segments_out + n * 4 + 1))"
    "get_edge_point m grid_values cols origin_x origin_y cell_size r c (pairs ! 0 ! 1)
       threshold = Some (m' (segments_out + n * 4 + 2), m' (segments_out + n * 4 + 3))"
    by (simp_all add: pair_stored_def Let_def cp')
  from cell(4) have second:
    "corners_apart grid_values cols r c segments_out n \<longrightarrow>
       get_edge_point m grid_values cols origin_x origin_y cell_size r c (pairs ! 1 ! 0)
         threshold =
         Some (m' (segments_out + (n + 1) * 4), m' (segments_out + (n + 1) * 4 + 1)) \<and>
       get_edge_point m grid_values cols origin_x origin_y cell_size r c (pairs ! 1 ! 1)
         threshold =
         Some (m' (segments_out + (n + 1) * 4 + 2), m' (segments_out + (n + 1) * 4 + 3))"
    by (simp add: pair_stored_def Let_def cp')
  from bind cell(1,2) first second show ?thesis
    unfolding Let_def center_def [symmetric] pairs_def [symmetric] by blast
qed

theorem saddle_pairing_witness:
  "case_index ((\<lambda>a. 0)(1 := 1, 2 := 1)) 0 2 0 0 (1 / 2) = 5 \<and>
   corners_apart 0 2 0 0 10 0 \<and>
   (\<exists>m'. marching_squares_cell 0 2 0 0 2 (1 / 2) 10 0 0 ((\<lambda>a. 0)(1 := 1, 2 := 1), 0) =
      Some (m', 2) \<and>
      m' 10 = 0 \<and> m' 11 = 1 \<and> m' 12 = 1 \<and> m' 13 = 2 \<and>
      m' 14 = 2 \<and> m' 15 = 1 \<and> m' 16 = 1 \<and> m' 17 = 0) \<and>
   case_index ((\<lambda>a. 0)(0 := 1, 3 := 1)) 0 2 0 0 (3 / 4) = 10 \<and>
   (\<exists>m'. marching_squares_cell 0 2 0 0 4 (3 / 4) 10 0 0 ((\<lambda>a. 0)(0 := 1, 3 := 1), 0) =
      Some (m', 2) \<and>
      m' 10 = 1 \<and> m' 11 = 0 \<and> m' 12 = 4 \<and> m' 13 = 3 \<and>
      m' 14 = 3 \<and> m' 15 = 4 \<and> m' 16 = 0 \<and> m' 17 = 1)"
proof -
  have c5: "case_index ((\<lambda>a. 0)(1 := 1, 2 := 1)) 0 2 0 0 (1 / 2) = 5"
    by (simp add: case_index_sum)
  have c10: "case_index ((\<lambda>a. 0)(0 := 1, 3 := 1)) 0 2 0 0 (3 / 4) = 10"
    by (simp add: case_index_sum)
  have ap: "corners_apart 0 2 0 0 10 0"
    by (simp add: corners_apart_def)
  have g5:
    "get_edge_point ((\<lambda>a. 0)(1 := 1, 2 := 1)) 0 2 0 0 2 0 0 0 (1 / 2) = Some (1, 0)"
    "get_edge_point ((\<lambda>a. 0)(1 := 1, 2 := 1)) 0 2 0 0 2 0 0 1 (1 / 2) = Some (2, 1)"
    "get_edge_point ((\<lambda>a. 0)(1 := 1, 2 := 1)) 0 2 0 0 2 0 0 2 (1 / 2) = Some (1, 2)"
    "get_edge_point ((\<lambda>a. 0)(1 := 1, 2 := 1)) 0 2 0 0 2 0 0 3 (1 / 2) = Some (0, 1)"
    by (simp_all add: get_edge_point_def lerp1d_def)
  have g10:
    "get_edge_point ((\<lambda>a. 0)(0 := 1, 3 := 1)) 0 2 0 0 4 0 0 0 (3 / 4) = Some (1, 0)"
    "get_edge_point ((\<lambda>a. 0)(0 := 1, 3 := 1)) 0 2 0 0 4 0 0 1 (3 / 4) = Some (4, 3)"
    "get_edge_point ((\<lambda>a. 0)(0 := 1, 3 := 1)) 0 2 0 0 4 0 0 2 (3 / 4) = Some (3, 4)"
    "get_edge_point ((\<lambda>a. 0)(0 := 1, 3 := 1)) 0 2 0 0 4 0 0 3 (3 / 4) = Some (0, 1)"
    by (simp_all add: get_edge_point_def lerp1d_def)
  have s5: "\<exists>m'. marching_squares_cell 0 2 0 0 2 (1 / 2) 10 0 0
        ((\<lambda>a. 0)(1 := 1, 2 := 1), 0) = Some (m', 2) \<and>
      m' 10 = 0 \<and> m' 11 = 1 \<and> m' 12 = 1 \<and> m' 13 = 2 \<and>
      m' 14 = 2 \<and> m' 15 = 1 \<and> m' 16 = 1 \<and> m' 17 = 0"
    using saddle_pairing [OF c5, of 0 0 2 10 0, unfolded Let_def, THEN conjunct2] ap
    by (simp add: g5) fastforce
  have s10: "\<exists>m'. marching_squares_cell 0 2 0 0 4 (3 / 4) 10 0 0
        ((\<lambda>a. 0)(0 := 1, 3 := 1), 0) = Some (m', 2) \<and>
      m' 10 = 1 \<and> m' 11 = 0 \<and> m' 12 = 4 \<and> m' 13 = 3 \<and>
      m' 14 = 3 \<and> m' 15 = 4 \<and> m' 16 = 0 \<and> m' 17 = 1"
    using saddle_pairing [OF c10, of 0 0 4 10 0, unfolded Let_def, THEN conjunct2] ap
    by (simp add: g10) fastforce
  from c5 c10 ap s5 s10 show ?thesis by blast
qed

section \<open>The sweep over the cells\<close>

subsection \<open>An invariant rule for the two loops\<close>

lemma marching_squares_cell_frame:
  "\<exists>m' n'. marching_squares_cell grid_values cols origin_x origin_y cell_size threshold
              segments_out r c (m, n) = Some (m', n') \<and>
           n \<le> n' \<and> n' \<le> n + 2 \<and>
           (\<forall>a. a < segments_out + n * 4 \<or> segments_out + n' * 4 \<le> a \<longrightarrow> m' a = m a)"
proof -
  define ci where "ci = case_index m grid_values cols r c threshold"
  have ci: "case_index m grid_values cols r c threshold = ci"
    by (simp add: ci_def)
  let ?pairs = "cell_pairs m grid_values cols r c threshold ci"
  consider "ci = 0 \<or> ci = 15" | "ci = 5 \<or> ci = 10"
    | "ci \<noteq> 0 \<and> ci \<noteq> 5 \<and> ci \<noteq> 10 \<and> ci \<noteq> 15"
    by blast
  then show ?thesis
  proof cases
    case 1
    then show ?thesis
      using ci by (simp add: marching_squares_cell_skip)
  next
    case 2
    then have ne: "ci \<noteq> 0" "ci \<noteq> 15" by auto
    have v0: "0 \<le> ?pairs ! 0 ! 0 \<and> ?pairs ! 0 ! 0 \<le> 3" "0 \<le> ?pairs ! 0 ! 1 \<and> ?pairs ! 0 ! 1 \<le> 3"
      using cell_pairs_first [OF ci ne] edge_straddles_valid by blast+
    have v1: "0 \<le> ?pairs ! 1 ! 0 \<and> ?pairs ! 1 ! 0 \<le> 3" "0 \<le> ?pairs ! 1 ! 1 \<and> ?pairs ! 1 ! 1 \<le> 3"
      using cell_pairs_second [OF ci 2] edge_straddles_valid by blast+
    obtain x0 y0 x1 y1 where e0:
      "emit_segment grid_values cols origin_x origin_y cell_size threshold segments_out
         r c (?pairs ! 0) (m, n) = Some (store_segment segments_out n x0 y0 x1 y1 m, n + 1)"
      using emit_segment_valid [OF v0] by blast
    obtain x2 y2 x3 y3 where e1:
      "emit_segment grid_values cols origin_x origin_y cell_size threshold segments_out
         r c (?pairs ! 1) (store_segment segments_out n x0 y0 x1 y1 m, n + 1) =
       Some (store_segment segments_out (n + 1) x2 y2 x3 y3
               (store_segment segments_out n x0 y0 x1 y1 m), n + 1 + 1)"
      using emit_segment_valid [OF v1] by blast
    have "marching_squares_cell grid_values cols origin_x origin_y cell_size threshold
        segments_out r c (m, n) =
      Some (store_segment segments_out (n + 1) x2 y2 x3 y3
              (store_segment segments_out n x0 y0 x1 y1 m), n + 2)"
      using e0 e1 by (simp add: marching_squares_cell_saddle [OF ci 2])
    then show ?thesis
      by (simp add: store_segment_twice_other)
  next
    case 3
    then have ne: "ci \<noteq> 0" "ci \<noteq> 15" "ci \<noteq> 5" "ci \<noteq> 10" by auto
    have v0: "0 \<le> ?pairs ! 0 ! 0 \<and> ?pairs ! 0 ! 0 \<le> 3" "0 \<le> ?pairs ! 0 ! 1 \<and> ?pairs ! 0 ! 1 \<le> 3"
      using cell_pairs_first [OF ci ne(1,2)] edge_straddles_valid by blast+
    have t: "?pairs = EDGE_TABLE ! nat ci"
      using ne by (simp add: cell_pairs_table)
    obtain x0 y0 x1 y1 where e0:
      "emit_segment grid_values cols origin_x origin_y cell_size threshold segments_out
         r c (?pairs ! 0) (m, n) = Some (store_segment segments_out n x0 y0 x1 y1 m, n + 1)"
      using emit_segment_valid [OF v0] by blast
    then have "marching_squares_cell grid_values cols origin_x origin_y cell_size threshold
        segments_out r c (m, n) = Some (store_segment segments_out n x0 y0 x1 y1 m, n + 1)"
      by (simp add: marching_squares_cell_single [OF ci ne(1,3,4,2)] t)
    then show ?thesis
      by (simp add: store_segment_other)
  qed
qed

lemma marching_squares_rule:
  assumes init: "I 0 m 0"
    and step: "\<And>r c m' n. 0 \<le> r \<Longrightarrow> r < rows - 1 \<Longrightarrow> 0 \<le> c \<Longrightarrow> c < cols - 1 \<Longrightarrow>
        I (r * (cols - 1) + c) m' n \<Longrightarrow>
        \<exists>m'' n'. marching_squares_cell grid_values cols origin_x origin_y cell_size threshold
                    segments_out r c (m', n) = Some (m'', n') \<and>
                  I (r * (cols - 1) + c + 1) m'' n'"
    and rows: "1 \<le> rows" and cols: "1 \<le> cols"
  shows "\<exists>m' n. marching_squares m grid_values cols rows origin_x origin_y cell_size
                  threshold segments_out = Some (m', n) \<and>
                I ((rows - 1) * (cols - 1)) m' n"
proof -
  let ?cell = "marching_squares_cell grid_values cols origin_x origin_y cell_size threshold
      segments_out"
  let ?P = "\<lambda>k s. \<exists>m' n. s = Some (m', n) \<and> I k m' n"
  have row: "?P ((r + 1) * (cols - 1)) (for_loop 0 (cols - 1) (\<lambda>c s. Option.bind s (?cell r c)) s)"
    if r: "0 \<le> r" "r < rows - 1" and s: "?P (r * (cols - 1)) s" for r s
  proof -
    have "?P (r * (cols - 1) + (cols - 1))
        (for_loop 0 (cols - 1) (\<lambda>c s. Option.bind s (?cell r c)) s)"
    proof (rule for_loop_rule [where P = "\<lambda>c s. ?P (r * (cols - 1) + c) s"])
      show "?P (r * (cols - 1) + 0) s" using s by simp
      show "0 \<le> cols - 1" using cols by simp
    next
      fix c t
      assume c: "0 \<le> c" "c < cols - 1" and t: "?P (r * (cols - 1) + c) t"
      then obtain m' n where t': "t = Some (m', n)" "I (r * (cols - 1) + c) m' n"
        by blast
      from step [OF r c t'(2)] t'(1)
      show "?P (r * (cols - 1) + (c + 1)) (Option.bind t (?cell r c))"
        by (simp add: add.assoc)
    qed
    then show ?thesis by (simp add: algebra_simps)
  qed
  have "?P ((rows - 1) * (cols - 1))
      (for_loop 0 (rows - 1)
         (\<lambda>r. for_loop 0 (cols - 1) (\<lambda>c s. Option.bind s (?cell r c))) (Some (m, 0)))"
  proof (rule for_loop_rule [where P = "\<lambda>r s. ?P (r * (cols - 1)) s"])
    show "?P (0 * (cols - 1)) (Some (m, 0))" using init by simp
    show "0 \<le> rows - 1" using rows by simp
  next
    fix r t
    assume "0 \<le> r" "r < rows - 1" "?P (r * (cols - 1)) t"
    then show "?P ((r + 1) * (cols - 1))
        (for_loop 0 (cols - 1) (\<lambda>c s. Option.bind s (?cell r c)) t)"
      by (rule row)
  qed
  then show ?thesis
    by (simp add: marching_squares_def)
qed

lemma marching_squares_empty:
  assumes "rows \<le> 1 \<or> cols \<le> 1"
  shows "marching_squares m grid_values cols rows origin_x origin_y cell_size
           threshold segments_out = Some (m, 0)"
proof (cases "rows \<le> 1")
  case True
  then show ?thesis
    by (simp add: marching_squares_def for_loop_done)
next
  case False
  with assms have "cols \<le> 1" by simp
  then have "for_loop 0 (cols - 1) body s = s" for body and s :: "(mem \<times> int) option"
    by (simp add: for_loop_done)
  then show ?thesis
    by (simp add: marching_squares_def for_loop_skip)
qed

lemma marching_squares_frame:
  assumes "1 \<le> rows" and "1 \<le> cols"
  shows "\<exists>m' n. marching_squares m grid_values cols rows origin_x origin_y cell_size
                  threshold segments_out = Some (m', n) \<and>
                0 \<le> n \<and> n \<le> 2 * ((rows - 1) * (cols - 1)) \<and>
                (\<forall>a. a < segments_out \<or> segments_out + n * 4 \<le> a \<longrightarrow> m' a = m a)"
proof (rule marching_squares_rule
    [where I = "\<lambda>k m' n. 0 \<le> n \<and> n \<le> 2 * k \<and>
       (\<forall>a. a < segments_out \<or> segments_out + n * 4 \<le> a \<longrightarrow> m' a = m a)"])
  show "0 \<le> (0::int) \<and> (0::int) \<le> 2 * 0 \<and>
      (\<forall>a. a < segments_out \<or> segments_out + 0 * 4 \<le> a \<longrightarrow> m a = m a)"
    by simp
  show "1 \<le> rows" "1 \<le> cols" by fact+
next
  fix r c :: int and m' :: mem and n :: int
  assume inv: "0 \<le> n \<and> n \<le> 2 * (r * (cols - 1) + c) \<and>
      (\<forall>a. a < segments_out \<or> segments_out + n * 4 \<le> a \<longrightarrow> m' a = m a)"
  obtain m'' n' where cell:
    "marching_squares_cell grid_values cols origin_x origin_y cell_size threshold
       segments_out r c (m', n) = Some (m'', n')"
    "n \<le> n'" "n' \<le> n + 2"
    "\<forall>a. a < segments_out + n * 4 \<or> segments_out + n' * 4 \<le> a \<longrightarrow> m'' a = m' a"
    using marching_squares_cell_frame by blast
  have "\<forall>a. a < segments_out \<or> segments_out + n' * 4 \<le> a \<longrightarrow> m'' a = m a"
  proof (intro allI impI)
    fix a
    assume a: "a < segments_out \<or> segments_out + n' * 4 \<le> a"
    with inv cell(2) have "m'' a = m' a"
      by (intro cell(4) [rule_format]) auto
    moreover from a inv cell(2) have "m' a = m a"
      by auto
    ultimately show "m'' a = m a" by simp
  qed
  with inv cell
  show "\<exists>m'' n'. marching_squares_cell grid_values cols origin_x origin_y cell_size threshold
                    segments_out r c (m', n) = Some (m'', n') \<and>
                  (0 \<le> n' \<and> n' \<le> 2 * (r * (cols - 1) + c + 1) \<and>
                   (\<forall>a. a < segments_out \<or> segments_out + n' * 4 \<le> a \<longrightarrow> m'' a = m a))"
    by auto
qed

subsection \<open>Segments lie on the cells that emit them\<close>

lemma on_cell_edge_in_square:
  assumes "on_cell_edge origin_x origin_y cell_size r c edge x y" and "0 \<le> cell_size"
  shows "in_cell_square origin_x origin_y cell_size r c x y"
  using assms
  by (auto simp add: on_cell_edge_def in_cell_square_def Let_def algebra_simps split: if_splits)

lemma cell_index_bounds:
  fixes r c rows cols :: int
  assumes "0 \<le> r" "r < rows - 1" "0 \<le> c" "c < cols - 1"
  shows "0 \<le> r * cols + c" and "(r + 1) * cols + c + 1 < rows * cols"
proof -
  have cols: "0 \<le> cols" using assms by simp
  then have "0 \<le> r * cols" using assms by simp
  then show "0 \<le> r * cols + c" using assms by simp
  have "(r + 1) * cols \<le> (rows - 1) * cols"
    using assms cols by (intro mult_right_mono) simp_all
  then show "(r + 1) * cols + c + 1 < rows * cols"
    using assms by (simp add: algebra_simps)
qed

lemma cell_count_bound:
  fixes r c rows cols :: int
  assumes "0 \<le> r" "r < rows - 1" "0 \<le> c" "c < cols - 1"
  shows "r * (cols - 1) + c + 1 \<le> (rows - 1) * (cols - 1)"
proof -
  have "(r + 1) * (cols - 1) \<le> (rows - 1) * (cols - 1)"
    using assms by (intro mult_right_mono) simp_all
  then show ?thesis
    using assms by (simp add: algebra_simps)
qed

lemma corners_apart_buffers:
  assumes apart: "segments_out + 8 * (rows - 1) * (cols - 1) \<le> grid_values \<or>
      grid_values + rows * cols \<le> segments_out"
    and cell: "0 \<le> r" "r < rows - 1" "0 \<le> c" "c < cols - 1"
    and n: "0 \<le> n" "n \<le> 2 * (r * (cols - 1) + c)"
  shows "corners_apart grid_values cols r c segments_out n"
proof -
  note ib = cell_index_bounds [OF cell]
  have lo: "0 \<le> r * cols + c + 1" "0 \<le> (r + 1) * cols + c" "0 \<le> (r + 1) * cols + c + 1"
    using ib(1) cell by (simp_all add: algebra_simps)
  have hi: "r * cols + c < rows * cols" "r * cols + c + 1 < rows * cols"
    "(r + 1) * cols + c < rows * cols"
    using ib(2) cell by (simp_all add: algebra_simps)
  have "n * 4 + 4 \<le> 8 * ((rows - 1) * (cols - 1))"
    using cell_count_bound [OF cell] n by simp
  moreover have "8 * (rows - 1) * (cols - 1) = 8 * ((rows - 1) * (cols - 1))"
    by (simp only: mult.assoc)
  ultimately have slot:
    "segments_out + n * 4 + 4 \<le> segments_out + 8 * (rows - 1) * (cols - 1)"
    by linarith
  from apart show ?thesis
  proof
    assume "segments_out + 8 * (rows - 1) * (cols - 1) \<le> grid_values"
    with slot ib(1) lo show ?thesis
      unfolding corners_apart_def by linarith
  next
    assume "grid_values + rows * cols \<le> segments_out"
    with n(1) ib(2) hi show ?thesis
      unfolding corners_apart_def by linarith
  qed
qed

lemma segment_on_cell_in_square:
  assumes "segment_on_cell m segments_out k origin_x origin_y cell_size r c"
    and "0 \<le> cell_size"
  shows "in_cell_square origin_x origin_y cell_size r c
           (m (segments_out + k * 4)) (m (segments_out + k * 4 + 1)) \<and>
         in_cell_square origin_x origin_y cell_size r c
           (m (segments_out + k * 4 + 2)) (m (segments_out + k * 4 + 3))"
  using assms unfolding segment_on_cell_def
  by (blast intro: on_cell_edge_in_square)

subsection \<open>What the sweep stores, cell by cell\<close>

lemma sum_upto_step:
  fixes f :: "int \<Rightarrow> int"
  assumes "0 \<le> k"
  shows "(\<Sum>j = 0..<k + 1. f j) = (\<Sum>j = 0..<k. f j) + f k"
proof -
  have "{0..<k + 1} = insert k {0..<k}"
    using assms by auto
  then show ?thesis by simp
qed

lemma number_cell:
  fixes j a W :: int
  assumes "0 \<le> j" "j < a * W" "0 < W"
  shows "0 \<le> j div W" and "j div W < a" and "0 \<le> j mod W" and "j mod W < W"
    and "j div W * W + j mod W = j"
proof -
  show "0 \<le> j div W"
    using assms by (simp add: pos_imp_zdiv_nonneg_iff)
  show "0 \<le> j mod W" "j mod W < W"
    using assms by simp_all
  show e: "j div W * W + j mod W = j"
    by simp
  show "j div W < a"
  proof (rule ccontr)
    assume "\<not> j div W < a"
    then have "a * W \<le> j div W * W"
      using assms(3) by (intro mult_right_mono) simp_all
    moreover have "j div W * W \<le> j"
      using e \<open>0 \<le> j mod W\<close> by linarith
    ultimately show False using assms(2) by simp
  qed
qed

lemma grid_unchanged:
  assumes apart: "segments_out + 8 * (rows - 1) * (cols - 1) \<le> grid_values \<or>
      grid_values + rows * cols \<le> segments_out"
    and n: "0 \<le> n" "n \<le> 2 * ((rows - 1) * (cols - 1))"
    and frame: "\<forall>a. a < segments_out \<or> segments_out + n * 4 \<le> a \<longrightarrow> m' a = m a"
    and j: "0 \<le> j" "j < rows * cols"
  shows "m' (grid_values + j) = (m :: mem) (grid_values + j)"
proof -
  have "8 * (rows - 1) * (cols - 1) = 4 * (2 * ((rows - 1) * (cols - 1)))"
    by simp
  with apart n j
  have "grid_values + j < segments_out \<or> segments_out + n * 4 \<le> grid_values + j"
    by linarith
  with frame show ?thesis by blast
qed

lemma corners_unchanged:
  assumes apart: "segments_out + 8 * (rows - 1) * (cols - 1) \<le> grid_values \<or>
      grid_values + rows * cols \<le> segments_out"
    and cell: "0 \<le> r" "r < rows - 1" "0 \<le> c" "c < cols - 1"
    and n: "0 \<le> n" "n \<le> 2 * (r * (cols - 1) + c)"
    and frame: "\<forall>a. a < segments_out \<or> segments_out + n * 4 \<le> a \<longrightarrow> m' a = m a"
  shows "m' (grid_values + (r * cols + c)) = (m :: mem) (grid_values + (r * cols + c))"
    and "m' (grid_values + (r * cols + c + 1)) = m (grid_values + (r * cols + c + 1))"
    and "m' (grid_values + ((r + 1) * cols + c)) = m (grid_values + ((r + 1) * cols + c))"
    and "m' (grid_values + ((r + 1) * cols + c + 1)) = m (grid_values + ((r + 1) * cols + c + 1))"
proof -
  note ib = cell_index_bounds [OF cell]
  have n': "n \<le> 2 * ((rows - 1) * (cols - 1))"
    using cell_count_bound [OF cell] n(2) by simp
  note gu = grid_unchanged [OF apart n(1) n' frame]
  show "m' (grid_values + (r * cols + c)) = m (grid_values + (r * cols + c))"
    using ib cell by (intro gu) (simp_all add: algebra_simps)
  show "m' (grid_values + (r * cols + c + 1)) = m (grid_values + (r * cols + c + 1))"
    using ib cell by (intro gu) (simp_all add: algebra_simps)
  show "m' (grid_values + ((r + 1) * cols + c)) = m (grid_values + ((r + 1) * cols + c))"
    using ib cell by (intro gu) (simp_all add: algebra_simps)
  show "m' (grid_values + ((r + 1) * cols + c + 1)) = m (grid_values + ((r + 1) * cols + c + 1))"
    using ib cell by (intro gu) (simp_all add: algebra_simps)
qed

lemma cell_cong:
  assumes "m' (grid_values + (r * cols + c)) = m (grid_values + (r * cols + c))"
    and "m' (grid_values + (r * cols + c + 1)) = m (grid_values + (r * cols + c + 1))"
    and "m' (grid_values + ((r + 1) * cols + c)) = m (grid_values + ((r + 1) * cols + c))"
    and "m' (grid_values + ((r + 1) * cols + c + 1)) = m (grid_values + ((r + 1) * cols + c + 1))"
  shows "case_index m' grid_values cols r c threshold =
           case_index m grid_values cols r c threshold"
    and "cell_pairs m' grid_values cols r c threshold ci =
           cell_pairs m grid_values cols r c threshold ci"
    and "cell_segments m' grid_values cols r c threshold =
           cell_segments m grid_values cols r c threshold"
    and "pair_stored m' m'' grid_values cols origin_x origin_y cell_size threshold
           segments_out r c p k =
         pair_stored m m'' grid_values cols origin_x origin_y cell_size threshold
           segments_out r c p k"
proof -
  show ci: "case_index m' grid_values cols r c threshold =
      case_index m grid_values cols r c threshold"
    by (simp add: case_index_def assms)
  show cp: "cell_pairs m' grid_values cols r c threshold ci =
      cell_pairs m grid_values cols r c threshold ci" for ci
    by (simp add: cell_pairs_def assms)
  show "cell_segments m' grid_values cols r c threshold =
      cell_segments m grid_values cols r c threshold"
    by (simp only: cell_segments_def ci)
  have "get_edge_point m' grid_values cols origin_x origin_y cell_size r c edge threshold =
      get_edge_point m grid_values cols origin_x origin_y cell_size r c edge threshold" for edge
    using assms by (rule get_edge_point_cong)
  then show "pair_stored m' m'' grid_values cols origin_x origin_y cell_size threshold
      segments_out r c p k =
    pair_stored m m'' grid_values cols origin_x origin_y cell_size threshold
      segments_out r c p k"
    by (simp only: pair_stored_def ci cp)
qed

lemma marching_squares_stores:
  assumes apart: "segments_out + 8 * (rows - 1) * (cols - 1) \<le> grid_values \<or>
      grid_values + rows * cols \<le> segments_out"
  shows "\<exists>m' n. marching_squares m grid_values cols rows origin_x origin_y cell_size
                  threshold segments_out = Some (m', n) \<and>
           (\<forall>a. a < segments_out \<or> segments_out + n * 4 \<le> a \<longrightarrow> m' a = m a) \<and>
           (\<forall>r c p. 0 \<le> r \<and> r < rows - 1 \<and> 0 \<le> c \<and> c < cols - 1 \<and>
                    0 \<le> p \<and> p < cell_segments m grid_values cols r c threshold \<longrightarrow>
              segments_before m grid_values cols threshold r c + p < n \<and>
              pair_stored m m' grid_values cols origin_x origin_y cell_size threshold
                segments_out r c p (segments_before m grid_values cols threshold r c + p)) \<and>
           (\<forall>k. 0 \<le> k \<and> k < n \<longrightarrow>
              (\<exists>r c p. 0 \<le> r \<and> r < rows - 1 \<and> 0 \<le> c \<and> c < cols - 1 \<and>
                 0 \<le> p \<and> p < cell_segments m grid_values cols r c threshold \<and>
                 k = segments_before m grid_values cols threshold r c + p))"
proof (cases "2 \<le> rows \<and> 2 \<le> cols")
  case False
  then have "rows \<le> 1 \<or> cols \<le> 1" by auto
  then have "marching_squares m grid_values cols rows origin_x origin_y cell_size
      threshold segments_out = Some (m, 0)"
    by (rule marching_squares_empty)
  moreover have "\<not> (0 \<le> r \<and> r < rows - 1 \<and> 0 \<le> c \<and> c < cols - 1)" for r c :: int
    using False by auto
  ultimately show ?thesis by auto
next
  case True
  define W where "W = cols - 1"
  define cnt where "cnt j = cell_segments m grid_values cols (j div W) (j mod W) threshold"
    for j
  define B where "B k = (\<Sum>j = 0..<k. cnt j)" for k
  define St where "St m' j p =
    pair_stored m m' grid_values cols origin_x origin_y cell_size threshold segments_out
      (j div W) (j mod W) p (B j + p)" for m' j p
  have W: "0 < W" using True by (simp add: W_def)
  have B0: "B 0 = 0" by (simp add: B_def)
  have Bstep: "B (k + 1) = B k + cnt k" if "0 \<le> k" for k
    unfolding B_def using that by (rule sum_upto_step)
  have before: "segments_before m grid_values cols threshold r c = B (r * W + c)" for r c
    by (simp add: segments_before_def B_def cnt_def W_def)
  have cnt_range: "0 \<le> cnt j \<and> cnt j \<le> 2" for j
    unfolding cnt_def by (rule cell_segments_range)
  let ?I = "\<lambda>k m' n. n = B k \<and> 0 \<le> n \<and> n \<le> 2 * k \<and>
      (\<forall>a. a < segments_out \<or> segments_out + n * 4 \<le> a \<longrightarrow> m' a = m a) \<and>
      (\<forall>j p. 0 \<le> j \<and> j < k \<and> 0 \<le> p \<and> p < cnt j \<longrightarrow> B j + p < n \<and> St m' j p) \<and>
      (\<forall>s. 0 \<le> s \<and> s < n \<longrightarrow> (\<exists>j p. 0 \<le> j \<and> j < k \<and> 0 \<le> p \<and> p < cnt j \<and> s = B j + p))"
  have "\<exists>m' n. marching_squares m grid_values cols rows origin_x origin_y cell_size
      threshold segments_out = Some (m', n) \<and> ?I ((rows - 1) * (cols - 1)) m' n"
  proof (rule marching_squares_rule [where I = ?I])
    show "?I 0 m 0" by (auto simp add: B0)
    show "1 \<le> rows" "1 \<le> cols" using True by simp_all
  next
    fix r c :: int and m' :: mem and n :: int
    assume cell: "0 \<le> r" "r < rows - 1" "0 \<le> c" "c < cols - 1"
      and inv: "?I (r * (cols - 1) + c) m' n"
    define k where "k = r * W + c"
    have k: "r * (cols - 1) + c = k" by (simp add: k_def W_def)
    have k0: "0 \<le> k" using cell by (simp add: k_def W_def)
    have kdiv: "k div W = r" "k mod W = c"
      unfolding k_def using cell(3,4) by (simp_all add: W_def)
    from inv have n: "n = B k" "0 \<le> n" "n \<le> 2 * k"
      and fr: "\<forall>a. a < segments_out \<or> segments_out + n * 4 \<le> a \<longrightarrow> m' a = m a"
      and old: "\<forall>j p. 0 \<le> j \<and> j < k \<and> 0 \<le> p \<and> p < cnt j \<longrightarrow> B j + p < n \<and> St m' j p"
      and cov: "\<forall>s. 0 \<le> s \<and> s < n \<longrightarrow>
        (\<exists>j p. 0 \<le> j \<and> j < k \<and> 0 \<le> p \<and> p < cnt j \<and> s = B j + p)"
      unfolding k by blast+
    have n2: "n \<le> 2 * (r * (cols - 1) + c)" using n(3) by (simp only: k)
    note cu = corners_unchanged [OF apart cell n(2) n2 fr]
    note cc = cell_cong [OF cu]
    have cntk: "cell_segments m' grid_values cols r c threshold = cnt k"
      by (simp only: cc(3) cnt_def kdiv)
    have ap: "corners_apart grid_values cols r c segments_out n"
      using apart cell n(2) n2 by (rule corners_apart_buffers)
    obtain m'' where step:
      "marching_squares_cell grid_values cols origin_x origin_y cell_size threshold
         segments_out r c (m', n) = Some (m'', n + cnt k)"
      "\<forall>a. a < segments_out + n * 4 \<or> segments_out + (n + cnt k) * 4 \<le> a \<longrightarrow> m'' a = m' a"
      "0 < cnt k \<longrightarrow>
         pair_stored m m'' grid_values cols origin_x origin_y cell_size threshold
           segments_out r c 0 n"
      "1 < cnt k \<longrightarrow>
         pair_stored m m'' grid_values cols origin_x origin_y cell_size threshold
           segments_out r c 1 (n + 1)"
      using marching_squares_cell_stores
        [of grid_values cols origin_x origin_y cell_size threshold segments_out r c m' n] ap
      unfolding cntk cc(4) by blast
    note rk = cnt_range [of k]
    have I1: "n + cnt k = B (k + 1)"
      using Bstep [OF k0] n(1) by simp
    have I2: "0 \<le> n + cnt k" "n + cnt k \<le> 2 * (k + 1)"
      using n(2,3) rk by simp_all
    have I3: "\<forall>a. a < segments_out \<or> segments_out + (n + cnt k) * 4 \<le> a \<longrightarrow> m'' a = m a"
    proof (intro allI impI)
      fix a
      assume a: "a < segments_out \<or> segments_out + (n + cnt k) * 4 \<le> a"
      with n(2) have "a < segments_out + n * 4 \<or> segments_out + (n + cnt k) * 4 \<le> a"
        by linarith
      with step(2) have "m'' a = m' a" by blast
      moreover have "segments_out + n * 4 \<le> segments_out + (n + cnt k) * 4"
        using rk by simp
      with a have "a < segments_out \<or> segments_out + n * 4 \<le> a"
        by linarith
      with fr have "m' a = m a" by blast
      ultimately show "m'' a = m a" by simp
    qed
    have I4: "\<forall>j p. 0 \<le> j \<and> j < k + 1 \<and> 0 \<le> p \<and> p < cnt j \<longrightarrow>
        B j + p < n + cnt k \<and> St m'' j p"
    proof (intro allI impI)
      fix j p
      assume jp: "0 \<le> j \<and> j < k + 1 \<and> 0 \<le> p \<and> p < cnt j"
      show "B j + p < n + cnt k \<and> St m'' j p"
      proof (cases "j < k")
        case True
        with jp old have o: "B j + p < n" "St m' j p" by blast+
        have "\<forall>a. segments_out + (B j + p) * 4 \<le> a \<and> a < segments_out + (B j + p) * 4 + 4 \<longrightarrow>
            m'' a = m' a"
        proof (intro allI impI)
          fix a
          assume "segments_out + (B j + p) * 4 \<le> a \<and> a < segments_out + (B j + p) * 4 + 4"
          moreover from o(1) have "(B j + p) * 4 + 4 \<le> n * 4" by simp
          ultimately have "a < segments_out + n * 4" by linarith
          with step(2) show "m'' a = m' a" by blast
        qed
        then have "St m'' j p = St m' j p"
          unfolding St_def by (rule pair_stored_cong)
        with o rk show ?thesis by simp
      next
        case False
        with jp have j: "j = k" by simp
        with jp rk have p: "p = 0 \<or> p = 1" by auto
        have "St m'' k p"
        proof (cases "p = 0")
          case True
          with jp j step(3) show ?thesis
            by (simp add: St_def kdiv n(1))
        next
          case False
          with p have "p = 1" by simp
          with jp j step(4) show ?thesis
            by (simp add: St_def kdiv n(1))
        qed
        with jp j n(1) show ?thesis by simp
      qed
    qed
    have I5: "\<forall>s. 0 \<le> s \<and> s < n + cnt k \<longrightarrow>
        (\<exists>j p. 0 \<le> j \<and> j < k + 1 \<and> 0 \<le> p \<and> p < cnt j \<and> s = B j + p)"
    proof (intro allI impI)
      fix s
      assume s: "0 \<le> s \<and> s < n + cnt k"
      show "\<exists>j p. 0 \<le> j \<and> j < k + 1 \<and> 0 \<le> p \<and> p < cnt j \<and> s = B j + p"
      proof (cases "s < n")
        case True
        with s cov obtain j p where "0 \<le> j \<and> j < k \<and> 0 \<le> p \<and> p < cnt j \<and> s = B j + p"
          by blast
        then have "0 \<le> j \<and> j < k + 1 \<and> 0 \<le> p \<and> p < cnt j \<and> s = B j + p"
          by simp
        then show ?thesis by blast
      next
        case False
        with s k0 n(1) have "0 \<le> k \<and> k < k + 1 \<and> 0 \<le> s - n \<and> s - n < cnt k \<and>
            s = B k + (s - n)"
          by simp
        then show ?thesis by blast
      qed
    qed
    from I1 I2 I3 I4 I5 have "?I (k + 1) m'' (n + cnt k)"
      by blast
    with step(1)
    show "\<exists>m'' n'. marching_squares_cell grid_values cols origin_x origin_y cell_size threshold
                      segments_out r c (m', n) = Some (m'', n') \<and>
                    ?I (r * (cols - 1) + c + 1) m'' n'"
      unfolding k by blast
  qed
  then obtain m' n where ms:
    "marching_squares m grid_values cols rows origin_x origin_y cell_size
       threshold segments_out = Some (m', n)"
    and fr: "\<forall>a. a < segments_out \<or> segments_out + n * 4 \<le> a \<longrightarrow> m' a = m a"
    and st: "\<forall>j p. 0 \<le> j \<and> j < (rows - 1) * (cols - 1) \<and> 0 \<le> p \<and> p < cnt j \<longrightarrow>
      B j + p < n \<and> St m' j p"
    and cov: "\<forall>s. 0 \<le> s \<and> s < n \<longrightarrow>
      (\<exists>j p. 0 \<le> j \<and> j < (rows - 1) * (cols - 1) \<and> 0 \<le> p \<and> p < cnt j \<and> s = B j + p)"
    by blast
  have cells: "segments_before m grid_values cols threshold r c + p < n \<and>
      pair_stored m m' grid_values cols origin_x origin_y cell_size threshold
        segments_out r c p (segments_before m grid_values cols threshold r c + p)"
    if rcp: "0 \<le> r \<and> r < rows - 1 \<and> 0 \<le> c \<and> c < cols - 1 \<and>
      0 \<le> p \<and> p < cell_segments m grid_values cols r c threshold" for r c p
  proof -
    from rcp have cell: "0 \<le> r" "r < rows - 1" "0 \<le> c" "c < cols - 1" by simp_all
    define j where "j = r * W + c"
    have jdiv: "j div W = r" "j mod W = c"
      unfolding j_def using cell(3,4) by (simp_all add: W_def)
    have "0 \<le> j" using cell by (simp add: j_def W_def)
    moreover have "j < (rows - 1) * (cols - 1)"
      using cell_count_bound [OF cell] by (simp add: j_def W_def)
    moreover have "p < cnt j"
      using rcp by (simp add: cnt_def jdiv)
    ultimately have "B j + p < n \<and> St m' j p"
      using st rcp by blast
    then show ?thesis
      by (simp add: St_def jdiv before j_def [symmetric])
  qed
  have covered: "\<exists>r c p. 0 \<le> r \<and> r < rows - 1 \<and> 0 \<le> c \<and> c < cols - 1 \<and>
      0 \<le> p \<and> p < cell_segments m grid_values cols r c threshold \<and>
      k = segments_before m grid_values cols threshold r c + p"
    if "0 \<le> k \<and> k < n" for k
  proof -
    from that cov obtain j p where jp: "0 \<le> j" "j < (rows - 1) * W" "0 \<le> p" "p < cnt j"
      "k = B j + p"
      unfolding W_def by blast
    note nc = number_cell [OF jp(1,2) W]
    have "segments_before m grid_values cols threshold (j div W) (j mod W) = B j"
      by (simp only: before nc(5))
    with jp nc have "0 \<le> j div W \<and> j div W < rows - 1 \<and> 0 \<le> j mod W \<and> j mod W < cols - 1 \<and>
        0 \<le> p \<and> p < cell_segments m grid_values cols (j div W) (j mod W) threshold \<and>
        k = segments_before m grid_values cols threshold (j div W) (j mod W) + p"
      by (simp add: cnt_def W_def)
    then show ?thesis by blast
  qed
  from ms fr cells covered show ?thesis by blast
qed

lemma pair_stored_on_cell:
  assumes "pair_stored m m' grid_values cols origin_x origin_y cell_size threshold
             segments_out r c p k"
    and "0 \<le> p" "p < cell_segments m grid_values cols r c threshold"
  shows "segment_on_cell m' segments_out k origin_x origin_y cell_size r c"
  using pair_stored_on_edges [OF assms] unfolding segment_on_cell_def by blast

subsection \<open>Evaluation on concrete grids\<close>

lemmas marching_squares_eval =
  marching_squares_def marching_squares_cell_def case_index_sum cell_pairs_def
  EDGE_TABLE_def NUM_PAIRS_def emit_segment_def get_edge_point_def lerp1d_def
  for_loop_step for_loop_done

lemma marching_squares_one_cell:
  "marching_squares ((\<lambda>a. 0)(3 := 1)) 0 2 2 0 0 2 (1 / 2) 10 =
     Some (store_segment 10 0 1 2 2 1 ((\<lambda>a. 0)(3 := 1)), 1)"
  by (simp add: marching_squares_eval)

lemmas marching_squares_cell_eval =
  marching_squares_cell_def case_index_sum cell_pairs_def
  EDGE_TABLE_def NUM_PAIRS_def emit_segment_def get_edge_point_def lerp1d_def
  for_loop_step for_loop_done

lemma store_segment_grid:
  assumes "segments_out + 32 \<le> grid_values \<or> grid_values + 9 \<le> segments_out"
    and "0 \<le> k \<and> k < 9" and "0 \<le> n \<and> n < 8"
  shows "store_segment segments_out n x0 y0 x1 y1 m (grid_values + k) = m (grid_values + k)"
  using assms by (intro store_segment_other) auto

lemma sum_upto_3:
  fixes f :: "int \<Rightarrow> int"
  shows "(\<Sum>k = 0..<3. f k) = f 0 + f 1 + f 2"
  using sum_upto_step [of 0 f] sum_upto_step [of 1 f] sum_upto_step [of 2 f] by simp

text \<open>
  The 3 by 3 grid of zeros whose centre value is 1, with threshold \<open>1 / 2\<close>: the four
  cells have the cases 2, 1, 4 and 8, and each stores one segment.
\<close>

lemma diamond_grid_stores:
  assumes grid: "\<forall>k. 0 \<le> k \<and> k < 9 \<longrightarrow> m (grid_values + k) = (if k = 4 then 1 else 0)"
    and apart: "segments_out + 32 \<le> grid_values \<or> grid_values + 9 \<le> segments_out"
  shows "marching_squares m grid_values 3 3 origin_x origin_y cell_size (1 / 2) segments_out =
     Some
       (store_segment segments_out 3
          (origin_x + 3 * cell_size / 2) (origin_y + cell_size)
          (origin_x + cell_size) (origin_y + 3 * cell_size / 2)
          (store_segment segments_out 2
             (origin_x + cell_size) (origin_y + 3 * cell_size / 2)
             (origin_x + cell_size / 2) (origin_y + cell_size)
             (store_segment segments_out 1
                (origin_x + cell_size) (origin_y + cell_size / 2)
                (origin_x + 3 * cell_size / 2) (origin_y + cell_size)
                (store_segment segments_out 0
                   (origin_x + cell_size / 2) (origin_y + cell_size)
                   (origin_x + cell_size) (origin_y + cell_size / 2)
                   m))),
        4)"
proof -
  let ?cell = "marching_squares_cell grid_values 3 origin_x origin_y cell_size (1 / 2)
      segments_out"
  let ?m1 = "store_segment segments_out 0
      (origin_x + cell_size / 2) (origin_y + cell_size)
      (origin_x + cell_size) (origin_y + cell_size / 2) m"
  let ?m2 = "store_segment segments_out 1
      (origin_x + cell_size) (origin_y + cell_size / 2)
      (origin_x + 3 * cell_size / 2) (origin_y + cell_size) ?m1"
  let ?m3 = "store_segment segments_out 2
      (origin_x + cell_size) (origin_y + 3 * cell_size / 2)
      (origin_x + cell_size / 2) (origin_y + cell_size) ?m2"
  let ?m4 = "store_segment segments_out 3
      (origin_x + 3 * cell_size / 2) (origin_y + cell_size)
      (origin_x + cell_size) (origin_y + 3 * cell_size / 2) ?m3"
  have v0: "m grid_values = 0" "m (grid_values + 1) = 0" "m (grid_values + 2) = 0"
    "m (grid_values + 3) = 0" "m (grid_values + 4) = 1" "m (grid_values + 5) = 0"
    "m (grid_values + 6) = 0" "m (grid_values + 7) = 0" "m (grid_values + 8) = 0"
    using grid [rule_format, of 0] grid [rule_format, of 1] grid [rule_format, of 2]
      grid [rule_format, of 3] grid [rule_format, of 4] grid [rule_format, of 5]
      grid [rule_format, of 6] grid [rule_format, of 7] grid [rule_format, of 8]
    by simp_all
  have v1: "?m1 grid_values = 0" "?m1 (grid_values + 1) = 0" "?m1 (grid_values + 2) = 0"
    "?m1 (grid_values + 3) = 0" "?m1 (grid_values + 4) = 1" "?m1 (grid_values + 5) = 0"
    "?m1 (grid_values + 6) = 0" "?m1 (grid_values + 7) = 0" "?m1 (grid_values + 8) = 0"
    using store_segment_grid [OF apart, of 0 0] store_segment_grid [OF apart, of _ 0] v0
    by simp_all
  have v2: "?m2 grid_values = 0" "?m2 (grid_values + 1) = 0" "?m2 (grid_values + 2) = 0"
    "?m2 (grid_values + 3) = 0" "?m2 (grid_values + 4) = 1" "?m2 (grid_values + 5) = 0"
    "?m2 (grid_values + 6) = 0" "?m2 (grid_values + 7) = 0" "?m2 (grid_values + 8) = 0"
    using store_segment_grid [OF apart, of 0 1] store_segment_grid [OF apart, of _ 1] v1
    by simp_all
  have v3: "?m3 grid_values = 0" "?m3 (grid_values + 1) = 0" "?m3 (grid_values + 2) = 0"
    "?m3 (grid_values + 3) = 0" "?m3 (grid_values + 4) = 1" "?m3 (grid_values + 5) = 0"
    "?m3 (grid_values + 6) = 0" "?m3 (grid_values + 7) = 0" "?m3 (grid_values + 8) = 0"
    using store_segment_grid [OF apart, of 0 2] store_segment_grid [OF apart, of _ 2] v2
    by simp_all
  have c00: "?cell 0 0 (m, 0) = Some (?m1, 1)"
    by (simp add: marching_squares_cell_eval v0)
  have c01: "?cell 0 1 (?m1, 1) = Some (?m2, 2)"
    by (simp add: marching_squares_cell_eval v1) (simp add: add.commute)
  have c10: "?cell 1 0 (?m2, 2) = Some (?m3, 3)"
    by (simp add: marching_squares_cell_eval v2) (simp add: add.commute)
  have c11: "?cell 1 1 (?m3, 3) = Some (?m4, 4)"
    by (simp add: marching_squares_cell_eval v3) (simp add: add.commute)
  show ?thesis
    by (simp add: marching_squares_def for_loop_step for_loop_done c00 c01 c10 c11)
qed

subsection \<open>Crossing points, count, frame, perimeter and the diamond\<close>

text \<open>
  Claim C3. Every segment that \<^verbatim>\<open>marching_squares\<close> stores is the segment of a pair
  \<open>p\<close> of a cell \<open>(r, c)\<close> of the grid, in the slot \<open>k\<close> that follows the segments of the
  cells before it; and for each of the two edges of the pair, the point stored is the
  point at the parameter \<open>t = (threshold - v0) / (v1 - v0)\<close> along that edge, where
  \<open>v0\<close> and \<open>v1\<close> are the values at the two corners of the edge, and at \<open>t = 1 / 2\<close> when
  \<open>\<bar>v1 - v0\<bar> < 1e-10\<close>. In world coordinates the point is
  \<open>origin + (index + offset) * cell_size\<close>, the offset being \<open>t\<close> along the edge and 0 or 1
  across it. For \<open>v0 = 0\<close>, \<open>v1 = 10\<close> and threshold 3 the parameter is \<open>3 / 10\<close>. The
  output buffer, at its documented size, is assumed not to overlap the grid.
\<close>

theorem marching_squares_crossing_points:
  assumes "segments_out + 8 * (rows - 1) * (cols - 1) \<le> grid_values \<or>
           grid_values + rows * cols \<le> segments_out"
  shows "\<exists>m' n. marching_squares m grid_values cols rows origin_x origin_y cell_size
                  threshold segments_out = Some (m', n) \<and>
           (\<forall>r c p. 0 \<le> r \<and> r < rows - 1 \<and> 0 \<le> c \<and> c < cols - 1 \<and>
                    0 \<le> p \<and> p < cell_segments m grid_values cols r c threshold \<longrightarrow>
              (let tl = m (grid_values + (r * cols + c));
                   tr = m (grid_values + (r * cols + c + 1));
                   bl = m (grid_values + ((r + 1) * cols + c));
                   br = m (grid_values + ((r + 1) * cols + c + 1));
                   t = (\<lambda>v0 v1. if \<bar>v1 - v0\<bar> < 1 / 10 ^ 10 then 1 / 2
                                 else (threshold - v0) / (v1 - v0));
                   point = (\<lambda>edge.
                     if edge = 0 then
                       (origin_x + (real_of_int c + t tl tr) * cell_size,
                        origin_y + (real_of_int r + 0) * cell_size)
                     else if edge = 1 then
                       (origin_x + (real_of_int c + 1) * cell_size,
                        origin_y + (real_of_int r + t tr br) * cell_size)
                     else if edge = 2 then
                       (origin_x + (real_of_int c + t bl br) * cell_size,
                        origin_y + (real_of_int r + 1) * cell_size)
                     else
                       (origin_x + (real_of_int c + 0) * cell_size,
                        origin_y + (real_of_int r + t tl bl) * cell_size));
                   pair = cell_pairs m grid_values cols r c threshold
                            (case_index m grid_values cols r c threshold) ! nat p;
                   k = segments_before m grid_values cols threshold r c + p
               in 0 \<le> pair ! 0 \<and> pair ! 0 \<le> 3 \<and> 0 \<le> pair ! 1 \<and> pair ! 1 \<le> 3 \<and> k < n \<and>
                  (m' (segments_out + k * 4), m' (segments_out + k * 4 + 1)) =
                    point (pair ! 0) \<and>
                  (m' (segments_out + k * 4 + 2), m' (segments_out + k * 4 + 3)) =
                    point (pair ! 1))) \<and>
           (\<forall>k. 0 \<le> k \<and> k < n \<longrightarrow>
              (\<exists>r c p. 0 \<le> r \<and> r < rows - 1 \<and> 0 \<le> c \<and> c < cols - 1 \<and>
                 0 \<le> p \<and> p < cell_segments m grid_values cols r c threshold \<and>
                 k = segments_before m grid_values cols threshold r c + p)) \<and>
           lerp1d 0 10 3 = 3 / 10"
proof -
  obtain m' n where ms:
    "marching_squares m grid_values cols rows origin_x origin_y cell_size
       threshold segments_out = Some (m', n)"
    and st: "\<forall>r c p. 0 \<le> r \<and> r < rows - 1 \<and> 0 \<le> c \<and> c < cols - 1 \<and>
        0 \<le> p \<and> p < cell_segments m grid_values cols r c threshold \<longrightarrow>
      segments_before m grid_values cols threshold r c + p < n \<and>
      pair_stored m m' grid_values cols origin_x origin_y cell_size threshold
        segments_out r c p (segments_before m grid_values cols threshold r c + p)"
    and cov: "\<forall>k. 0 \<le> k \<and> k < n \<longrightarrow>
      (\<exists>r c p. 0 \<le> r \<and> r < rows - 1 \<and> 0 \<le> c \<and> c < cols - 1 \<and>
         0 \<le> p \<and> p < cell_segments m grid_values cols r c threshold \<and>
         k = segments_before m grid_values cols threshold r c + p)"
    using marching_squares_stores [OF assms, where m = m and origin_x = origin_x and
        origin_y = origin_y and cell_size = cell_size and threshold = threshold]
    by blast
  have l: "lerp1d 0 10 3 = 3 / 10"
    by (simp add: lerp1d_def)
  have pts:
    "let tl = m (grid_values + (r * cols + c));
         tr = m (grid_values + (r * cols + c + 1));
         bl = m (grid_values + ((r + 1) * cols + c));
         br = m (grid_values + ((r + 1) * cols + c + 1));
         t = (\<lambda>v0 v1. if \<bar>v1 - v0\<bar> < 1 / 10 ^ 10 then 1 / 2
                       else (threshold - v0) / (v1 - v0));
         point = (\<lambda>edge.
           if edge = 0 then
             (origin_x + (real_of_int c + t tl tr) * cell_size,
              origin_y + (real_of_int r + 0) * cell_size)
           else if edge = 1 then
             (origin_x + (real_of_int c + 1) * cell_size,
              origin_y + (real_of_int r + t tr br) * cell_size)
           else if edge = 2 then
             (origin_x + (real_of_int c + t bl br) * cell_size,
              origin_y + (real_of_int r + 1) * cell_size)
           else
             (origin_x + (real_of_int c + 0) * cell_size,
              origin_y + (real_of_int r + t tl bl) * cell_size));
         pair = cell_pairs m grid_values cols r c threshold
                  (case_index m grid_values cols r c threshold) ! nat p;
         k = segments_before m grid_values cols threshold r c + p
     in 0 \<le> pair ! 0 \<and> pair ! 0 \<le> 3 \<and> 0 \<le> pair ! 1 \<and> pair ! 1 \<le> 3 \<and> k < n \<and>
        (m' (segments_out + k * 4), m' (segments_out + k * 4 + 1)) = point (pair ! 0) \<and>
        (m' (segments_out + k * 4 + 2), m' (segments_out + k * 4 + 3)) = point (pair ! 1)"
    if rcp: "0 \<le> r \<and> r < rows - 1 \<and> 0 \<le> c \<and> c < cols - 1 \<and>
      0 \<le> p \<and> p < cell_segments m grid_values cols r c threshold" for r c p
  proof -
    define pair where "pair = cell_pairs m grid_values cols r c threshold
      (case_index m grid_values cols r c threshold) ! nat p"
    define k where "k = segments_before m grid_values cols threshold r c + p"
    from st rcp have kn: "k < n"
      and ps: "pair_stored m m' grid_values cols origin_x origin_y cell_size threshold
        segments_out r c p k"
      unfolding k_def by blast+
    from rcp have p: "0 \<le> p" "p < cell_segments m grid_values cols r c threshold"
      by simp_all
    from pair_straddles [OF p] have v: "0 \<le> pair ! 0 \<and> pair ! 0 \<le> 3" "0 \<le> pair ! 1 \<and> pair ! 1 \<le> 3"
      unfolding pair_def using edge_straddles_valid by blast+
    from ps have g:
      "get_edge_point m grid_values cols origin_x origin_y cell_size r c (pair ! 0) threshold =
         Some (m' (segments_out + k * 4), m' (segments_out + k * 4 + 1))"
      "get_edge_point m grid_values cols origin_x origin_y cell_size r c (pair ! 1) threshold =
         Some (m' (segments_out + k * 4 + 2), m' (segments_out + k * 4 + 3))"
      by (simp_all add: pair_stored_def Let_def pair_def)
    note f0 = get_edge_point_formula [OF v(1), of m grid_values cols origin_x origin_y
        cell_size r c threshold, unfolded Let_def g(1) option.inject]
    note f1 = get_edge_point_formula [OF v(2), of m grid_values cols origin_x origin_y
        cell_size r c threshold, unfolded Let_def g(2) option.inject]
    from v kn f0 f1 show ?thesis
      unfolding Let_def pair_def [symmetric] k_def [symmetric] by blast
  qed
  from ms pts cov l show ?thesis by blast
qed

theorem marching_squares_crossing_points_witness:
  "(0::int) + 2 * 2 \<le> 10 \<and>
   cell_segments ((\<lambda>a. 0)(1 := 10, 3 := 10)) 0 2 0 0 3 = 1 \<and>
   cell_pairs ((\<lambda>a. 0)(1 := 10, 3 := 10)) 0 2 0 0 3
     (case_index ((\<lambda>a. 0)(1 := 10, 3 := 10)) 0 2 0 0 3) ! 0 = [2, 0] \<and>
   (\<exists>m' n. marching_squares ((\<lambda>a. 0)(1 := 10, 3 := 10)) 0 2 2 5 7 10 3 10 = Some (m', n) \<and>
      0 < n \<and> m' 10 = 5 + (0 + 3 / 10) * 10 \<and> m' 11 = 7 + (0 + 1) * 10 \<and>
      m' 12 = 5 + (0 + 3 / 10) * 10 \<and> m' 13 = 7 + (0 + 0) * 10) \<and>
   lerp1d 0 10 3 = 3 / 10"
proof -
  let ?m = "(\<lambda>a. 0)(1 := 10, 3 := (10::real))"
  have apart: "(10::int) + 8 * (2 - 1) * (2 - 1) \<le> 0 \<or> (0::int) + 2 * 2 \<le> 10"
    by simp
  have cnt: "cell_segments ?m 0 2 0 0 3 = 1"
    by (simp add: cell_segments_def case_index_sum NUM_PAIRS_def)
  have pair: "cell_pairs ?m 0 2 0 0 3 (case_index ?m 0 2 0 0 3) ! 0 = [2, 0]"
    by (simp add: cell_pairs_def case_index_sum EDGE_TABLE_def)
  have before: "segments_before ?m 0 2 3 0 0 = 0"
    by (simp add: segments_before_def)
  from marching_squares_crossing_points [OF apart, of ?m 5 7 10 3]
  obtain m' n where ms: "marching_squares ?m 0 2 2 5 7 10 3 10 = Some (m', n)"
    and pts: "\<forall>r c p. 0 \<le> r \<and> r < 2 - 1 \<and> 0 \<le> c \<and> c < 2 - 1 \<and>
        0 \<le> p \<and> p < cell_segments ?m 0 2 r c 3 \<longrightarrow>
      (let tl = ?m (0 + (r * 2 + c));
           tr = ?m (0 + (r * 2 + c + 1));
           bl = ?m (0 + ((r + 1) * 2 + c));
           br = ?m (0 + ((r + 1) * 2 + c + 1));
           t = (\<lambda>v0 v1. if \<bar>v1 - v0\<bar> < 1 / 10 ^ 10 then 1 / 2 else (3 - v0) / (v1 - v0));
           point = (\<lambda>edge.
             if edge = 0 then
               (5 + (real_of_int c + t tl tr) * 10, 7 + (real_of_int r + 0) * 10)
             else if edge = 1 then
               (5 + (real_of_int c + 1) * 10, 7 + (real_of_int r + t tr br) * 10)
             else if edge = 2 then
               (5 + (real_of_int c + t bl br) * 10, 7 + (real_of_int r + 1) * 10)
             else
               (5 + (real_of_int c + 0) * 10, 7 + (real_of_int r + t tl bl) * 10));
           pair = cell_pairs ?m 0 2 r c 3 (case_index ?m 0 2 r c 3) ! nat p;
           k = segments_before ?m 0 2 3 r c + p
       in 0 \<le> pair ! 0 \<and> pair ! 0 \<le> 3 \<and> 0 \<le> pair ! 1 \<and> pair ! 1 \<le> 3 \<and> k < n \<and>
          (m' (10 + k * 4), m' (10 + k * 4 + 1)) = point (pair ! 0) \<and>
          (m' (10 + k * 4 + 2), m' (10 + k * 4 + 3)) = point (pair ! 1))"
    and l: "lerp1d 0 10 3 = 3 / 10"
    by blast
  from pts [rule_format, of 0 0 0]
  have "0 < n \<and> m' 10 = 5 + (0 + 3 / 10) * 10 \<and> m' 11 = 7 + (0 + 1) * 10 \<and>
      m' 12 = 5 + (0 + 3 / 10) * 10 \<and> m' 13 = 7 + (0 + 0) * 10"
    by (simp add: Let_def cnt pair before)
  with ms cnt pair l show ?thesis by simp
qed

text \<open>
  Claim C8. For a grid with at least two rows and two columns \<^verbatim>\<open>marching_squares\<close>
  returns a count of at most \<open>2 * (rows - 1) * (cols - 1)\<close>, and every address whose
  content it changes is a float of \<^verbatim>\<open>segments_out\<close> with an index below four
  times the count, hence below \<open>8 * (rows - 1) * (cols - 1)\<close>. This holds for every
  memory, also when the buffers overlap.
\<close>

theorem marching_squares_bounds:
  assumes "2 \<le> cols" and "2 \<le> rows"
  shows "\<exists>m' n. marching_squares m grid_values cols rows origin_x origin_y cell_size
                  threshold segments_out = Some (m', n) \<and>
                0 \<le> n \<and> n \<le> 2 * (rows - 1) * (cols - 1) \<and>
                (\<forall>a. m' a \<noteq> m a \<longrightarrow>
                   segments_out \<le> a \<and> a < segments_out + 4 * n \<and>
                   a < segments_out + 8 * (rows - 1) * (cols - 1))"
proof -
  from assms have "1 \<le> rows" "1 \<le> cols" by simp_all
  from marching_squares_frame [OF this]
  obtain m' n where ms:
    "marching_squares m grid_values cols rows origin_x origin_y cell_size
       threshold segments_out = Some (m', n)"
    "0 \<le> n" "n \<le> 2 * ((rows - 1) * (cols - 1))"
    "\<forall>a. a < segments_out \<or> segments_out + n * 4 \<le> a \<longrightarrow> m' a = m a"
    by blast
  have "segments_out \<le> a \<and> a < segments_out + 4 * n \<and>
      a < segments_out + 8 * (rows - 1) * (cols - 1)" if "m' a \<noteq> m a" for a
  proof -
    from that ms(4) have "\<not> (a < segments_out \<or> segments_out + n * 4 \<le> a)"
      by blast
    then have "segments_out \<le> a \<and> a < segments_out + n * 4"
      by simp
    moreover have "8 * (rows - 1) * (cols - 1) = 4 * (2 * ((rows - 1) * (cols - 1)))"
      by simp
    ultimately show ?thesis using ms(3) by linarith
  qed
  moreover have "n \<le> 2 * (rows - 1) * (cols - 1)"
    using ms(3) by (simp only: mult.assoc)
  ultimately show ?thesis
    using ms(1,2) by blast
qed

theorem marching_squares_bounds_witness:
  "(2::int) \<le> 2 \<and>
   (\<exists>m' n. marching_squares ((\<lambda>a. 0)(3 := 1)) 0 2 2 0 0 2 (1 / 2) 10 = Some (m', n) \<and>
      0 \<le> n \<and> n \<le> 2 \<and> m' 18 = 0 \<and> m' 9 = 0)"
proof -
  have two: "(2::int) \<le> 2" by simp
  obtain m' n where ms:
    "marching_squares ((\<lambda>a. 0)(3 := 1)) 0 2 2 0 0 2 (1 / 2) 10 = Some (m', n)"
    "0 \<le> n" "n \<le> 2 * (2 - 1) * (2 - 1)"
    "\<forall>a. m' a \<noteq> ((\<lambda>a. 0)(3 := 1)) a \<longrightarrow>
       10 \<le> a \<and> a < 10 + 4 * n \<and> a < 10 + 8 * (2 - 1) * (2 - 1)"
    using marching_squares_bounds [OF two two, of "(\<lambda>a. 0)(3 := 1)" 0 0 0 2 "1 / 2" 10]
    by blast
  from ms(4) [rule_format, of 18] have "m' 18 = 0" by auto
  moreover from ms(4) [rule_format, of 9] have "m' 9 = 0" by auto
  ultimately show ?thesis using ms(1-3) by simp
qed

text \<open>
  Claim C10. Every segment \<^verbatim>\<open>marching_squares\<close> stores has both end points on the
  perimeter of the world-space square of the cell that emitted it. The cell \<open>(r, c)\<close>
  emits the segments in the slots from \<open>segments_before \<dots> r c\<close>, the number of segments
  of the cells before it, up to its own number of segments, \<open>cell_segments \<dots> r c\<close>,
  further, and every slot below the count that is returned is such a slot of a cell of
  the grid. Each end point of a segment in a slot of the cell \<open>(r, c)\<close> lies on one of
  the four edges of that cell, between the edge's corners, because every edge the table or
  the saddle cases select has one corner inside and one outside, which keeps the
  interpolation parameter in \<open>[0, 1]\<close>. With a cell size that is not negative the
  coordinates therefore stay within
  \<open>[origin + c * cell_size, origin + (c + 1) * cell_size]\<close>, and likewise for the rows.
  The output buffer, at its documented size, is assumed not to overlap the grid.
\<close>

theorem marching_squares_on_perimeter:
  assumes cs: "0 \<le> cell_size"
    and apart: "segments_out + 8 * (rows - 1) * (cols - 1) \<le> grid_values \<or>
      grid_values + rows * cols \<le> segments_out"
  shows "\<exists>m' n. marching_squares m grid_values cols rows origin_x origin_y cell_size
                  threshold segments_out = Some (m', n) \<and>
           (\<forall>k. 0 \<le> k \<and> k < n \<longrightarrow>
              (\<exists>r c. 0 \<le> r \<and> r < rows - 1 \<and> 0 \<le> c \<and> c < cols - 1 \<and>
                 segments_before m grid_values cols threshold r c \<le> k \<and>
                 k < segments_before m grid_values cols threshold r c +
                       cell_segments m grid_values cols r c threshold)) \<and>
           (\<forall>r c k. 0 \<le> r \<and> r < rows - 1 \<and> 0 \<le> c \<and> c < cols - 1 \<and>
                    segments_before m grid_values cols threshold r c \<le> k \<and>
                    k < segments_before m grid_values cols threshold r c +
                          cell_segments m grid_values cols r c threshold \<longrightarrow>
              k < n \<and>
              segment_on_cell m' segments_out k origin_x origin_y cell_size r c \<and>
              in_cell_square origin_x origin_y cell_size r c
                (m' (segments_out + k * 4)) (m' (segments_out + k * 4 + 1)) \<and>
              in_cell_square origin_x origin_y cell_size r c
                (m' (segments_out + k * 4 + 2)) (m' (segments_out + k * 4 + 3)))"
proof -
  obtain m' n where ms:
    "marching_squares m grid_values cols rows origin_x origin_y cell_size
       threshold segments_out = Some (m', n)"
    and st: "\<forall>r c p. 0 \<le> r \<and> r < rows - 1 \<and> 0 \<le> c \<and> c < cols - 1 \<and>
        0 \<le> p \<and> p < cell_segments m grid_values cols r c threshold \<longrightarrow>
      segments_before m grid_values cols threshold r c + p < n \<and>
      pair_stored m m' grid_values cols origin_x origin_y cell_size threshold
        segments_out r c p (segments_before m grid_values cols threshold r c + p)"
    and cov: "\<forall>k. 0 \<le> k \<and> k < n \<longrightarrow>
      (\<exists>r c p. 0 \<le> r \<and> r < rows - 1 \<and> 0 \<le> c \<and> c < cols - 1 \<and>
         0 \<le> p \<and> p < cell_segments m grid_values cols r c threshold \<and>
         k = segments_before m grid_values cols threshold r c + p)"
    using marching_squares_stores [OF apart, where m = m and origin_x = origin_x and
        origin_y = origin_y and cell_size = cell_size and threshold = threshold]
    by blast
  have every: "\<exists>r c. 0 \<le> r \<and> r < rows - 1 \<and> 0 \<le> c \<and> c < cols - 1 \<and>
      segments_before m grid_values cols threshold r c \<le> k \<and>
      k < segments_before m grid_values cols threshold r c +
            cell_segments m grid_values cols r c threshold"
    if "0 \<le> k \<and> k < n" for k
  proof -
    from cov that obtain r c p where
      "0 \<le> r \<and> r < rows - 1 \<and> 0 \<le> c \<and> c < cols - 1 \<and>
       0 \<le> p \<and> p < cell_segments m grid_values cols r c threshold \<and>
       k = segments_before m grid_values cols threshold r c + p"
      by blast
    then have "0 \<le> r \<and> r < rows - 1 \<and> 0 \<le> c \<and> c < cols - 1 \<and>
      segments_before m grid_values cols threshold r c \<le> k \<and>
      k < segments_before m grid_values cols threshold r c +
            cell_segments m grid_values cols r c threshold"
      by simp
    then show ?thesis by blast
  qed
  have cell: "k < n \<and>
      segment_on_cell m' segments_out k origin_x origin_y cell_size r c \<and>
      in_cell_square origin_x origin_y cell_size r c
        (m' (segments_out + k * 4)) (m' (segments_out + k * 4 + 1)) \<and>
      in_cell_square origin_x origin_y cell_size r c
        (m' (segments_out + k * 4 + 2)) (m' (segments_out + k * 4 + 3))"
    if rck: "0 \<le> r \<and> r < rows - 1 \<and> 0 \<le> c \<and> c < cols - 1 \<and>
      segments_before m grid_values cols threshold r c \<le> k \<and>
      k < segments_before m grid_values cols threshold r c +
            cell_segments m grid_values cols r c threshold" for r c k
  proof -
    define p where "p = k - segments_before m grid_values cols threshold r c"
    have k: "segments_before m grid_values cols threshold r c + p = k"
      by (simp add: p_def)
    from rck have p: "0 \<le> p" "p < cell_segments m grid_values cols r c threshold"
      by (simp_all add: p_def)
    from st rck p have "k < n"
      and ps: "pair_stored m m' grid_values cols origin_x origin_y cell_size threshold
        segments_out r c p k"
      unfolding k [symmetric] by blast+
    moreover from pair_stored_on_cell [OF ps p]
    have on: "segment_on_cell m' segments_out k origin_x origin_y cell_size r c" .
    moreover note segment_on_cell_in_square [OF on cs]
    ultimately show ?thesis by blast
  qed
  from ms every cell show ?thesis by blast
qed

theorem marching_squares_on_perimeter_witness:
  "(0::real) \<le> 2 \<and> (0::int) + 3 * 3 \<le> 100 \<and>
   segments_before ((\<lambda>a. 0)(4 := 1)) 0 3 (1 / 2) 1 1 = 3 \<and>
   cell_segments ((\<lambda>a. 0)(4 := 1)) 0 3 1 1 (1 / 2) = 1 \<and>
   (\<exists>m' n. marching_squares ((\<lambda>a. 0)(4 := 1)) 0 3 3 0 0 2 (1 / 2) 100 = Some (m', n) \<and>
      3 < n \<and> m' 112 = 3 \<and> m' 113 = 2 \<and> m' 114 = 2 \<and> m' 115 = 3 \<and>
      in_cell_square 0 0 2 1 1 (m' 112) (m' 113) \<and>
      in_cell_square 0 0 2 1 1 (m' 114) (m' 115) \<and>
      \<not> in_cell_square 0 0 2 0 0 (m' 112) (m' 113))"
proof -
  let ?m = "(\<lambda>a. 0)(4 := (1::real))"
  have cs: "(0::real) \<le> 2" by simp
  have apart: "(100::int) + 8 * (3 - 1) * (3 - 1) \<le> 0 \<or> (0::int) + 3 * 3 \<le> 100" by simp
  have before: "segments_before ?m 0 3 (1 / 2) 1 1 = 3"
    by (simp add: segments_before_def sum_upto_3 cell_segments_def case_index_sum NUM_PAIRS_def)
  have cnt: "cell_segments ?m 0 3 1 1 (1 / 2) = 1"
    by (simp add: cell_segments_def case_index_sum NUM_PAIRS_def)
  have grid: "\<forall>k. 0 \<le> k \<and> k < 9 \<longrightarrow> ?m ((0::int) + k) = (if k = 4 then 1 else (0::real))"
    by simp
  have apart': "(100::int) + 32 \<le> 0 \<or> (0::int) + 9 \<le> 100"
    by simp
  obtain m' n where ms: "marching_squares ?m 0 3 3 0 0 2 (1 / 2) 100 = Some (m', n)"
    and cell: "\<forall>r c k. 0 \<le> r \<and> r < 3 - 1 \<and> 0 \<le> c \<and> c < 3 - 1 \<and>
        segments_before ?m 0 3 (1 / 2) r c \<le> k \<and>
        k < segments_before ?m 0 3 (1 / 2) r c + cell_segments ?m 0 3 r c (1 / 2) \<longrightarrow>
      k < n \<and> segment_on_cell m' 100 k 0 0 2 r c \<and>
      in_cell_square 0 0 2 r c (m' (100 + k * 4)) (m' (100 + k * 4 + 1)) \<and>
      in_cell_square 0 0 2 r c (m' (100 + k * 4 + 2)) (m' (100 + k * 4 + 3))"
    using marching_squares_on_perimeter [OF cs apart, of ?m 0 0 "1 / 2"]
    by blast
  from cell [rule_format, of 1 1 3] have on:
    "3 < n" "in_cell_square 0 0 2 1 1 (m' 112) (m' 113)"
    "in_cell_square 0 0 2 1 1 (m' 114) (m' 115)"
    by (simp_all add: before cnt)
  from ms diamond_grid_stores [OF grid apart', of 0 0 2]
  have v: "m' 112 = 3" "m' 113 = 2" "m' 114 = 2" "m' 115 = 3"
    by (auto simp add: store_segment_def)
  have out: "\<not> in_cell_square 0 0 2 0 0 (m' 112) (m' 113)"
    by (simp add: v in_cell_square_def)
  from ms on v out before cnt show ?thesis by simp
qed

text \<open>
  Claim C2. On a 3 by 3 grid of zeros whose centre value is 1, with threshold \<open>1 / 2\<close>
  and any origin and cell size, \<^verbatim>\<open>marching_squares\<close> returns the count 4 and stores
  exactly four segments, one per cell in scan order: the sixteen floats at
  \<^verbatim>\<open>segments_out[0]\<close> to \<^verbatim>\<open>segments_out[15]\<close> of the memory it leaves are the
  coordinates below, and every other float is as it was. The end points are the
  midpoints of the four grid edges that meet at the centre grid point
  \<open>(origin_x + cell_size, origin_y + cell_size)\<close>: the segments join left and top, top
  and right, bottom and left, right and bottom, a diamond around the centre. The output
  buffer, at its documented size of 32 floats, is assumed not to overlap the grid.
\<close>

theorem marching_squares_diamond:
  assumes "\<forall>k. 0 \<le> k \<and> k < 9 \<longrightarrow> m (grid_values + k) = (if k = 4 then 1 else 0)"
    and "segments_out + 32 \<le> grid_values \<or> grid_values + 9 \<le> segments_out"
  shows "\<exists>m'. marching_squares m grid_values 3 3 origin_x origin_y cell_size (1 / 2)
                segments_out = Some (m', 4) \<and>
              m' (segments_out + 0) = origin_x + cell_size / 2 \<and>
              m' (segments_out + 1) = origin_y + cell_size \<and>
              m' (segments_out + 2) = origin_x + cell_size \<and>
              m' (segments_out + 3) = origin_y + cell_size / 2 \<and>
              m' (segments_out + 4) = origin_x + cell_size \<and>
              m' (segments_out + 5) = origin_y + cell_size / 2 \<and>
              m' (segments_out + 6) = origin_x + 3 * cell_size / 2 \<and>
              m' (segments_out + 7) = origin_y + cell_size \<and>
              m' (segments_out + 8) = origin_x + cell_size \<and>
              m' (segments_out + 9) = origin_y + 3 * cell_size / 2 \<and>
              m' (segments_out + 10) = origin_x + cell_size / 2 \<and>
              m' (segments_out + 11) = origin_y + cell_size \<and>
              m' (segments_out + 12) = origin_x + 3 * cell_size / 2 \<and>
              m' (segments_out + 13) = origin_y + cell_size \<and>
              m' (segments_out + 14) = origin_x + cell_size \<and>
              m' (segments_out + 15) = origin_y + 3 * cell_size / 2 \<and>
              (\<forall>a. a < segments_out \<or> segments_out + 16 \<le> a \<longrightarrow> m' a = m a)"
proof -
  let ?m4 = "store_segment segments_out 3
      (origin_x + 3 * cell_size / 2) (origin_y + cell_size)
      (origin_x + cell_size) (origin_y + 3 * cell_size / 2)
      (store_segment segments_out 2
         (origin_x + cell_size) (origin_y + 3 * cell_size / 2)
         (origin_x + cell_size / 2) (origin_y + cell_size)
         (store_segment segments_out 1
            (origin_x + cell_size) (origin_y + cell_size / 2)
            (origin_x + 3 * cell_size / 2) (origin_y + cell_size)
            (store_segment segments_out 0
               (origin_x + cell_size / 2) (origin_y + cell_size)
               (origin_x + cell_size) (origin_y + cell_size / 2)
               m)))"
  have ms: "marching_squares m grid_values 3 3 origin_x origin_y cell_size (1 / 2)
      segments_out = Some (?m4, 4)"
    using assms by (rule diamond_grid_stores)
  have slots:
    "?m4 (segments_out + 0) = origin_x + cell_size / 2"
    "?m4 (segments_out + 1) = origin_y + cell_size"
    "?m4 (segments_out + 2) = origin_x + cell_size"
    "?m4 (segments_out + 3) = origin_y + cell_size / 2"
    "?m4 (segments_out + 4) = origin_x + cell_size"
    "?m4 (segments_out + 5) = origin_y + cell_size / 2"
    "?m4 (segments_out + 6) = origin_x + 3 * cell_size / 2"
    "?m4 (segments_out + 7) = origin_y + cell_size"
    "?m4 (segments_out + 8) = origin_x + cell_size"
    "?m4 (segments_out + 9) = origin_y + 3 * cell_size / 2"
    "?m4 (segments_out + 10) = origin_x + cell_size / 2"
    "?m4 (segments_out + 11) = origin_y + cell_size"
    "?m4 (segments_out + 12) = origin_x + 3 * cell_size / 2"
    "?m4 (segments_out + 13) = origin_y + cell_size"
    "?m4 (segments_out + 14) = origin_x + cell_size"
    "?m4 (segments_out + 15) = origin_y + 3 * cell_size / 2"
    by (simp_all add: store_segment_def)
  have frame: "\<forall>a. a < segments_out \<or> segments_out + 16 \<le> a \<longrightarrow> ?m4 a = m a"
    by (auto simp add: store_segment_def)
  from ms slots frame show ?thesis
    by (intro exI [of _ ?m4] conjI) (simp_all only:)
qed

theorem marching_squares_diamond_witness:
  "\<exists>m'. marching_squares ((\<lambda>a. 0)(4 := 1)) 0 3 3 0 0 2 (1 / 2) 100 = Some (m', 4) \<and>
     m' 100 = 1 \<and> m' 101 = 2 \<and> m' 102 = 2 \<and> m' 103 = 1 \<and>
     m' 104 = 2 \<and> m' 105 = 1 \<and> m' 106 = 3 \<and> m' 107 = 2 \<and>
     m' 108 = 2 \<and> m' 109 = 3 \<and> m' 110 = 1 \<and> m' 111 = 2 \<and>
     m' 112 = 3 \<and> m' 113 = 2 \<and> m' 114 = 2 \<and> m' 115 = 3 \<and>
     m' 4 = 1 \<and> m' 99 = 0 \<and> m' 116 = 0"
proof -
  have grid: "\<forall>k. 0 \<le> k \<and> k < 9 \<longrightarrow>
      ((\<lambda>a. 0)(4 := 1)) ((0::int) + k) = (if k = 4 then 1 else (0::real))"
    by simp
  have apart: "(100::int) + 32 \<le> 0 \<or> (0::int) + 9 \<le> 100"
    by simp
  from marching_squares_diamond [OF grid apart, of 0 0 2]
  show ?thesis
    apply (elim exE conjE)
    apply (intro exI conjI)
    apply assumption
    apply simp_all
    done
qed

section \<open>The field accumulator\<close>

subsection \<open>Loops that add to the cells of a grid\<close>

lemma for_loop_empty: "hi \<le> lo \<Longrightarrow> for_loop lo hi body s = s"
  by (simp add: for_loop_done)

lemma for_loop_add_row:
  "for_loop lo hi (\<lambda>c m. m(b + c := m (b + c) + w c)) (m::mem) a =
     (if lo \<le> a - b \<and> a - b < hi then m a + w (a - b) else m a)"
proof (cases "lo \<le> hi")
  case False
  then show ?thesis by (simp add: for_loop_empty)
next
  case True
  have "\<forall>a. for_loop lo hi (\<lambda>c m. m(b + c := m (b + c) + w c)) m a =
      (if lo \<le> a - b \<and> a - b < hi then m a + w (a - b) else m a)"
  proof (rule for_loop_rule
      [where P = "\<lambda>i m'. \<forall>a. m' a = (if lo \<le> a - b \<and> a - b < i then m a + w (a - b) else m a)"])
    show "\<forall>a. m a = (if lo \<le> a - b \<and> a - b < lo then m a + w (a - b) else m a)"
      by simp
    show "lo \<le> hi" by fact
  next
    fix i and t :: mem
    assume i: "lo \<le> i" "i < hi"
      and t: "\<forall>a. t a = (if lo \<le> a - b \<and> a - b < i then m a + w (a - b) else m a)"
    show "\<forall>a. (t(b + i := t (b + i) + w i)) a =
        (if lo \<le> a - b \<and> a - b < i + 1 then m a + w (a - b) else m a)"
    proof
      fix a
      show "(t(b + i := t (b + i) + w i)) a =
          (if lo \<le> a - b \<and> a - b < i + 1 then m a + w (a - b) else m a)"
      proof (cases "a = b + i")
        case True
        then show ?thesis using i t by simp
      next
        case False
        then have "a - b \<noteq> i" by simp
        then have "(a - b < i + 1) = (a - b < i)" by arith
        with False t show ?thesis by simp
      qed
    qed
  qed
  then show ?thesis by simp
qed

lemma offset_in_row:
  fixes d c cols :: int
  assumes "0 \<le> c" "c < cols"
  shows "(0 \<le> d * cols + c \<and> d * cols + c < cols) = (d = 0)"
proof
  assume "d = 0"
  with assms show "0 \<le> d * cols + c \<and> d * cols + c < cols" by simp
next
  assume a: "0 \<le> d * cols + c \<and> d * cols + c < cols"
  have cols: "0 < cols" using assms by simp
  have "(d * cols + c) div cols = d"
    using assms cols by simp
  moreover have "(d * cols + c) div cols = 0"
    using a by (intro div_pos_pos_trivial) simp_all
  ultimately show "d = 0" by simp
qed

lemma for_loop_add_grid:
  fixes m :: mem
  assumes cb: "0 \<le> cLo" "cHi \<le> cols" and c: "0 \<le> c" "c < cols"
  shows "for_loop rLo rHi
           (\<lambda>r. for_loop cLo cHi
              (\<lambda>c m. m(g + (r * cols + c) := m (g + (r * cols + c)) + w r c)))
           m (g + (r * cols + c)) =
         m (g + (r * cols + c)) +
           (if rLo \<le> r \<and> r < rHi \<and> cLo \<le> c \<and> c < cHi then w r c else 0)"
proof -
  let ?row = "\<lambda>r. for_loop cLo cHi
      (\<lambda>c m. m(g + (r * cols + c) := m (g + (r * cols + c)) + w r c))"
  have row: "?row i t (g + (r * cols + c)) =
      t (g + (r * cols + c)) + (if i = r \<and> cLo \<le> c \<and> c < cHi then w r c else 0)"
    if c: "0 \<le> c" "c < cols" for i and t :: mem and r c
  proof -
    have "?row i t = for_loop cLo cHi
        (\<lambda>c m. m((g + i * cols) + c := m ((g + i * cols) + c) + w i c)) t"
      by (simp add: add.assoc)
    then have "?row i t (g + (r * cols + c)) =
        (if cLo \<le> (g + (r * cols + c)) - (g + i * cols) \<and>
            (g + (r * cols + c)) - (g + i * cols) < cHi
         then t (g + (r * cols + c)) + w i ((g + (r * cols + c)) - (g + i * cols))
         else t (g + (r * cols + c)))"
      by (simp only: for_loop_add_row)
    moreover have d: "(g + (r * cols + c)) - (g + i * cols) = (r - i) * cols + c"
      by (simp add: algebra_simps)
    moreover have "(cLo \<le> (r - i) * cols + c \<and> (r - i) * cols + c < cHi) =
        (i = r \<and> cLo \<le> c \<and> c < cHi)"
    proof (cases "i = r")
      case True
      then show ?thesis by simp
    next
      case False
      then have "r - i \<noteq> 0" by simp
      with offset_in_row [OF c, of "r - i"]
      have "\<not> (0 \<le> (r - i) * cols + c \<and> (r - i) * cols + c < cols)"
        by simp
      with cb False show ?thesis by auto
    qed
    ultimately show ?thesis by auto
  qed
  show ?thesis
  proof (cases "rLo \<le> rHi")
    case False
    then show ?thesis by (simp add: for_loop_empty)
  next
    case True
    have "\<forall>r c. 0 \<le> c \<and> c < cols \<longrightarrow>
        for_loop rLo rHi ?row m (g + (r * cols + c)) =
        m (g + (r * cols + c)) +
          (if rLo \<le> r \<and> r < rHi \<and> cLo \<le> c \<and> c < cHi then w r c else 0)"
    proof (rule for_loop_rule
        [where P = "\<lambda>i m'. \<forall>r c. 0 \<le> c \<and> c < cols \<longrightarrow>
           m' (g + (r * cols + c)) = m (g + (r * cols + c)) +
             (if rLo \<le> r \<and> r < i \<and> cLo \<le> c \<and> c < cHi then w r c else 0)"])
      show "\<forall>r c. 0 \<le> c \<and> c < cols \<longrightarrow>
          m (g + (r * cols + c)) = m (g + (r * cols + c)) +
            (if rLo \<le> r \<and> r < rLo \<and> cLo \<le> c \<and> c < cHi then w r c else 0)"
        by simp
      show "rLo \<le> rHi" by fact
    next
      fix i and t :: mem
      assume i: "rLo \<le> i" "i < rHi"
        and t: "\<forall>r c. 0 \<le> c \<and> c < cols \<longrightarrow>
          t (g + (r * cols + c)) = m (g + (r * cols + c)) +
            (if rLo \<le> r \<and> r < i \<and> cLo \<le> c \<and> c < cHi then w r c else 0)"
      show "\<forall>r c. 0 \<le> c \<and> c < cols \<longrightarrow>
          ?row i t (g + (r * cols + c)) = m (g + (r * cols + c)) +
            (if rLo \<le> r \<and> r < i + 1 \<and> cLo \<le> c \<and> c < cHi then w r c else 0)"
      proof (intro allI impI)
        fix r c :: int
        assume c: "0 \<le> c \<and> c < cols"
        then have 1: "?row i t (g + (r * cols + c)) =
            t (g + (r * cols + c)) + (if i = r \<and> cLo \<le> c \<and> c < cHi then w r c else 0)"
          by (intro row) simp_all
        have 2: "t (g + (r * cols + c)) = m (g + (r * cols + c)) +
            (if rLo \<le> r \<and> r < i \<and> cLo \<le> c \<and> c < cHi then w r c else 0)"
          using t c by simp
        have 3: "(if rLo \<le> r \<and> r < i \<and> cLo \<le> c \<and> c < cHi then w r c else 0) +
            (if i = r \<and> cLo \<le> c \<and> c < cHi then w r c else 0) =
            (if rLo \<le> r \<and> r < i + 1 \<and> cLo \<le> c \<and> c < cHi then w r c else 0)"
          using i by auto
        show "?row i t (g + (r * cols + c)) = m (g + (r * cols + c)) +
            (if rLo \<le> r \<and> r < i + 1 \<and> cLo \<le> c \<and> c < cHi then w r c else 0)"
          unfolding 1 2 3 [symmetric] by (simp only: add.assoc)
      qed
    qed
    with c show ?thesis by simp
  qed
qed

subsection \<open>The distance and the bounding box\<close>

lemma bridge_cell_add:
  "bridge_cell grid_values cols origin_x origin_y cell_size ax ay bx by invTwoSigmaSq cutoffSq
     r c m =
   m(grid_values + (r * cols + c) := m (grid_values + (r * cols + c)) +
       bridge_weight origin_x origin_y cell_size ax ay bx by invTwoSigmaSq cutoffSq r c)"
  by (simp add: bridge_cell_def bridge_weight_def Let_def)

lemma bbox_lo_nonneg: "0 \<le> bbox_lo conv seg_min origin cell_size"
  by (simp add: bbox_lo_def Let_def)

lemma bbox_hi_le: "bbox_hi conv seg_max origin cell_size n \<le> n - 1"
  by (simp add: bbox_hi_def Let_def)

lemma bbox_lo_le:
  assumes "0 < cell_size" and "int_range \<lfloor>(seg_min - origin) / cell_size\<rfloor>"
    and "seg_min \<le> origin + real_of_int c * cell_size" and "0 \<le> c"
  shows "bbox_lo conv seg_min origin cell_size \<le> c"
proof -
  have "(seg_min - origin) / cell_size \<le> real_of_int c"
    using assms(1,3) by (simp add: divide_le_eq)
  then have "\<lfloor>(seg_min - origin) / cell_size\<rfloor> \<le> c"
    by (simp add: floor_le_iff)
  moreover have "int_of_floorf conv (seg_min - origin) cell_size =
      \<lfloor>(seg_min - origin) / cell_size\<rfloor>"
    using assms(1,2) by (simp add: int_of_floorf_def)
  ultimately show ?thesis
    using assms(4) by (simp add: bbox_lo_def Let_def)
qed

lemma bbox_hi_ge:
  assumes "0 < cell_size" and "int_range \<lceil>(seg_max - origin) / cell_size\<rceil>"
    and "origin + real_of_int c * cell_size \<le> seg_max" and "c \<le> n - 1"
  shows "c \<le> bbox_hi conv seg_max origin cell_size n"
proof -
  have "real_of_int c \<le> (seg_max - origin) / cell_size"
    using assms(1,3) by (simp add: le_divide_eq)
  then have "c \<le> \<lceil>(seg_max - origin) / cell_size\<rceil>"
    by (simp add: le_ceiling_iff)
  moreover have "int_of_ceilf conv (seg_max - origin) cell_size =
      \<lceil>(seg_max - origin) / cell_size\<rceil>"
    using assms(1,2) by (simp add: int_of_ceilf_def)
  ultimately show ?thesis
    using assms(4) by (simp add: bbox_hi_def Let_def)
qed

lemma sum_squares_less:
  fixes x y R :: real
  assumes "x * x + y * y < R * R" and "0 \<le> R"
  shows "\<bar>x\<bar> < R" and "\<bar>y\<bar> < R"
proof -
  have "0 \<le> x * x" "0 \<le> y * y"
    by simp_all
  with assms(1) have "x * x < R * R" "y * y < R * R"
    by linarith+
  then have "x\<^sup>2 < R\<^sup>2" "y\<^sup>2 < R\<^sup>2"
    by (simp_all add: power2_eq_square)
  then have "\<bar>x\<bar>\<^sup>2 < R\<^sup>2" "\<bar>y\<bar>\<^sup>2 < R\<^sup>2"
    by simp_all
  then show "\<bar>x\<bar> < R" "\<bar>y\<bar> < R"
    using assms(2) by (auto intro: power2_less_imp_less)
qed

lemma dist_to_segment_sq_near:
  "\<exists>nx ny. min ax bx \<le> nx \<and> nx \<le> max ax bx \<and> min ay by \<le> ny \<and> ny \<le> max ay by \<and>
     dist_to_segment_sq px py ax ay bx by = (px - nx) * (px - nx) + (py - ny) * (py - ny)"
proof (cases "(bx - ax) * (bx - ax) + (by - ay) * (by - ay) < 1 / 1000000000000")
  case True
  then have "dist_to_segment_sq px py ax ay bx by = (px - ax) * (px - ax) + (py - ay) * (py - ay)"
    by (simp add: dist_to_segment_sq_def Let_def)
  moreover have "min ax bx \<le> ax \<and> ax \<le> max ax bx \<and> min ay by \<le> ay \<and> ay \<le> max ay by"
    by simp
  ultimately show ?thesis by blast
next
  case False
  define t0 where "t0 = ((px - ax) * (bx - ax) + (py - ay) * (by - ay)) /
      ((bx - ax) * (bx - ax) + (by - ay) * (by - ay))"
  define t1 where "t1 = (if t0 < 0 then 0 else t0)"
  define t where "t = (if t1 > 1 then 1 else t1)"
  have t: "0 \<le> t" "t \<le> 1"
    by (simp_all add: t_def t1_def)
  have d: "dist_to_segment_sq px py ax ay bx by =
      (px - (ax + t * (bx - ax))) * (px - (ax + t * (bx - ax))) +
      (py - (ay + t * (by - ay))) * (py - (ay + t * (by - ay)))"
    using False by (simp add: dist_to_segment_sq_def Let_def t_def t1_def t0_def)
  have "min ax (ax + (bx - ax)) \<le> ax + t * (bx - ax) \<and>
      ax + t * (bx - ax) \<le> max ax (ax + (bx - ax))"
    using t by (rule scaled_between)
  moreover have "min ay (ay + (by - ay)) \<le> ay + t * (by - ay) \<and>
      ay + t * (by - ay) \<le> max ay (ay + (by - ay))"
    using t by (rule scaled_between)
  ultimately have "min ax bx \<le> ax + t * (bx - ax) \<and> ax + t * (bx - ax) \<le> max ax bx \<and>
      min ay by \<le> ay + t * (by - ay) \<and> ay + t * (by - ay) \<le> max ay by"
    by simp
  with d show ?thesis by blast
qed

lemma dist_to_segment_sq_box:
  assumes "dist_to_segment_sq px py ax ay bx by < R * R" and "0 \<le> R"
  shows "min ax bx - R \<le> px \<and> px \<le> max ax bx + R \<and>
         min ay by - R \<le> py \<and> py \<le> max ay by + R"
proof -
  obtain nx ny where n: "min ax bx \<le> nx" "nx \<le> max ax bx" "min ay by \<le> ny" "ny \<le> max ay by"
    "dist_to_segment_sq px py ax ay bx by = (px - nx) * (px - nx) + (py - ny) * (py - ny)"
    using dist_to_segment_sq_near by blast
  from assms(1) have "(px - nx) * (px - nx) + (py - ny) * (py - ny) < R * R"
    by (simp only: n(5))
  from sum_squares_less [OF this assms(2)] have "\<bar>px - nx\<bar> < R" "\<bar>py - ny\<bar> < R" .
  with n(1-4) show ?thesis by linarith
qed




lemma dist_to_segment_sq_least:
  assumes len: "1 / 1000000000000 \<le> (bx - ax) * (bx - ax) + (by - ay) * (by - ay)"
    and s: "0 \<le> s" "s \<le> 1"
  shows "dist_to_segment_sq px py ax ay bx by \<le>
         (px - (ax + s * (bx - ax))) * (px - (ax + s * (bx - ax))) +
         (py - (ay + s * (by - ay))) * (py - (ay + s * (by - ay)))"
proof -
  define L where "L = (bx - ax) * (bx - ax) + (by - ay) * (by - ay)"
  define P where "P = (px - ax) * (bx - ax) + (py - ay) * (by - ay)"
  define u where "u = P / L"
  define t1 where "t1 = (if u < 0 then 0 else u)"
  define t where "t = (if t1 > 1 then 1 else t1)"
  have L: "0 < L" using len by (simp add: L_def)
  have P: "P = u * L" using L by (simp add: u_def)
  have f: "(px - (ax + v * (bx - ax))) * (px - (ax + v * (bx - ax))) +
      (py - (ay + v * (by - ay))) * (py - (ay + v * (by - ay))) =
      (px - ax) * (px - ax) + (py - ay) * (py - ay) + L * (v * v - 2 * v * u)" for v
  proof -
    have "(px - (ax + v * (bx - ax))) * (px - (ax + v * (bx - ax))) +
        (py - (ay + v * (by - ay))) * (py - (ay + v * (by - ay))) =
        (px - ax) * (px - ax) + (py - ay) * (py - ay) + v * v * L - 2 * v * P"
      by (simp add: L_def P_def algebra_simps)
    then show ?thesis
      by (simp add: P algebra_simps)
  qed
  have d: "dist_to_segment_sq px py ax ay bx by =
      (px - (ax + t * (bx - ax))) * (px - (ax + t * (bx - ax))) +
      (py - (ay + t * (by - ay))) * (py - (ay + t * (by - ay)))"
    using len by (simp add: dist_to_segment_sq_def Let_def t_def t1_def u_def P_def L_def)
  have "t * t - 2 * t * u \<le> s * s - 2 * s * u"
  proof -
    have "(s * s - 2 * s * u) - (t * t - 2 * t * u) = (s - t) * (s + t - 2 * u)"
      by (simp add: algebra_simps)
    moreover have "0 \<le> (s - t) * (s + t - 2 * u)"
    proof (cases "u < 0")
      case True
      then have "t = 0" by (simp add: t_def t1_def)
      with True s show ?thesis by simp
    next
      case False
      show ?thesis
      proof (cases "1 < u")
        case True
        then have "t = 1" by (simp add: t_def t1_def)
        with True s show ?thesis
          by (intro mult_nonpos_nonpos) simp_all
      next
        case le: False
        with False have "t = u" by (simp add: t_def t1_def)
        then show ?thesis by simp
      qed
    qed
    ultimately show ?thesis by linarith
  qed
  then have "L * (t * t - 2 * t * u) \<le> L * (s * s - 2 * s * u)"
    using L by (intro mult_left_mono) simp_all
  then show ?thesis
    unfolding d f by simp
qed

subsection \<open>One edge\<close>

lemma bridge_sigma_nonneg: "0 \<le> bridge_sigma baseSigma ax ay bx by"
proof -
  have "0 \<le> sqrt ((bx - ax) * (bx - ax) + (by - ay) * (by - ay)) * (12 / 100)"
    by simp
  then show ?thesis
    unfolding bridge_sigma_def by (rule max.coboundedI2)
qed

lemma bridge_edge_unfold:
  "bridge_edge conv grid_values cols rows origin_x origin_y cell_size mst_edges baseSigma i m =
     (let ax = m (mst_edges + (i * 4 + 0));
          ay = m (mst_edges + (i * 4 + 1));
          bx = m (mst_edges + (i * 4 + 2));
          by = m (mst_edges + (i * 4 + 3));
          s = bridge_sigma baseSigma ax ay bx by
      in for_loop (bbox_lo conv (min ay by - 3 * s) origin_y cell_size)
           (bbox_hi conv (max ay by + 3 * s) origin_y cell_size rows + 1)
           (\<lambda>r. for_loop (bbox_lo conv (min ax bx - 3 * s) origin_x cell_size)
                  (bbox_hi conv (max ax bx + 3 * s) origin_x cell_size cols + 1)
                  (bridge_cell grid_values cols origin_x origin_y cell_size ax ay bx by
                     (1 / (2 * s * s)) (3 * s * (3 * s)) r))
           m)"
  by (simp add: bridge_edge_def bridge_sigma_def bbox_lo_def bbox_hi_def Let_def)


lemma box_in_range_unfold:
  "box_in_range m origin_x origin_y cell_size mst_edges baseSigma i =
     (let ax = m (mst_edges + (i * 4 + 0));
          ay = m (mst_edges + (i * 4 + 1));
          bx = m (mst_edges + (i * 4 + 2));
          by = m (mst_edges + (i * 4 + 3));
          s = bridge_sigma baseSigma ax ay bx by
      in int_range \<lfloor>(min ay by - 3 * s - origin_y) / cell_size\<rfloor> \<and>
         int_range \<lceil>(max ay by + 3 * s - origin_y) / cell_size\<rceil> \<and>
         int_range \<lfloor>(min ax bx - 3 * s - origin_x) / cell_size\<rfloor> \<and>
         int_range \<lceil>(max ax bx + 3 * s - origin_x) / cell_size\<rceil>)"
  by (simp add: box_in_range_def bridge_sigma_def Let_def)

lemma bridge_cell_fun:
  "bridge_cell grid_values cols origin_x origin_y cell_size ax ay bx by invTwoSigmaSq cutoffSq =
   (\<lambda>r c m. m(grid_values + (r * cols + c) := m (grid_values + (r * cols + c)) +
       bridge_weight origin_x origin_y cell_size ax ay bx by invTwoSigmaSq cutoffSq r c))"
  by (intro ext) (simp only: bridge_cell_add)

lemma bridge_loops_at:
  assumes cb: "0 \<le> cLo" "cHi \<le> cols" and c: "0 \<le> c" "c < cols"
  shows "for_loop rLo rHi
           (\<lambda>r. for_loop cLo cHi
              (bridge_cell grid_values cols origin_x origin_y cell_size ax ay bx by
                 invTwoSigmaSq cutoffSq r))
           m (grid_values + (r * cols + c)) =
         m (grid_values + (r * cols + c)) +
           (if rLo \<le> r \<and> r < rHi \<and> cLo \<le> c \<and> c < cHi
            then bridge_weight origin_x origin_y cell_size ax ay bx by invTwoSigmaSq cutoffSq r c
            else 0)"
  unfolding bridge_cell_fun using assms by (rule for_loop_add_grid)

lemma address_in_row:
  fixes a g cols :: int
  assumes "0 < cols"
  shows "\<exists>r c. 0 \<le> c \<and> c < cols \<and> a = g + (r * cols + c)"
proof -
  have "0 \<le> (a - g) mod cols" "(a - g) mod cols < cols"
    using assms by simp_all
  moreover have "a = g + ((a - g) div cols * cols + (a - g) mod cols)"
    by simp
  ultimately show ?thesis by blast
qed

lemma bridge_weight_in_box:
  assumes cs: "0 < cell_size" and s: "0 \<le> s"
    and rng: "int_range \<lfloor>(min ay by - 3 * s - origin_y) / cell_size\<rfloor>"
      "int_range \<lceil>(max ay by + 3 * s - origin_y) / cell_size\<rceil>"
      "int_range \<lfloor>(min ax bx - 3 * s - origin_x) / cell_size\<rfloor>"
      "int_range \<lceil>(max ax bx + 3 * s - origin_x) / cell_size\<rceil>"
    and r: "0 \<le> r" "r < rows" and c: "0 \<le> c" "c < cols"
    and w: "bridge_weight origin_x origin_y cell_size ax ay bx by invTwoSigmaSq
              (3 * s * (3 * s)) r c \<noteq> 0"
  shows "bbox_lo conv (min ay by - 3 * s) origin_y cell_size \<le> r \<and>
         r < bbox_hi conv (max ay by + 3 * s) origin_y cell_size rows + 1 \<and>
         bbox_lo conv (min ax bx - 3 * s) origin_x cell_size \<le> c \<and>
         c < bbox_hi conv (max ax bx + 3 * s) origin_x cell_size cols + 1"
proof -
  let ?px = "origin_x + real_of_int c * cell_size"
  let ?py = "origin_y + real_of_int r * cell_size"
  from w have "dist_to_segment_sq ?px ?py ax ay bx by < 3 * s * (3 * s)"
    by (simp add: bridge_weight_def Let_def split: if_splits)
  moreover have "0 \<le> 3 * s" using s by simp
  ultimately have box: "min ax bx - 3 * s \<le> ?px \<and> ?px \<le> max ax bx + 3 * s \<and>
      min ay by - 3 * s \<le> ?py \<and> ?py \<le> max ay by + 3 * s"
    by (rule dist_to_segment_sq_box)
  have "bbox_lo conv (min ay by - 3 * s) origin_y cell_size \<le> r"
    using cs rng(1) box r by (intro bbox_lo_le) simp_all
  moreover have "r \<le> bbox_hi conv (max ay by + 3 * s) origin_y cell_size rows"
    using cs rng(2) box r by (intro bbox_hi_ge) simp_all
  moreover have "bbox_lo conv (min ax bx - 3 * s) origin_x cell_size \<le> c"
    using cs rng(3) box c by (intro bbox_lo_le) simp_all
  moreover have "c \<le> bbox_hi conv (max ax bx + 3 * s) origin_x cell_size cols"
    using cs rng(4) box c by (intro bbox_hi_ge) simp_all
  ultimately show ?thesis by simp
qed

lemma bridge_edge_at:
  assumes c: "0 \<le> c" "c < cols"
  shows "bridge_edge conv grid_values cols rows origin_x origin_y cell_size mst_edges baseSigma
           i m (grid_values + (r * cols + c)) =
         m (grid_values + (r * cols + c)) +
           (if edge_visits conv m cols rows origin_x origin_y cell_size mst_edges baseSigma i r c
            then edge_weight m origin_x origin_y cell_size mst_edges baseSigma i r c else 0)"
proof -
  define ax where "ax = m (mst_edges + (i * 4 + 0))"
  define ay where "ay = m (mst_edges + (i * 4 + 1))"
  define bx where "bx = m (mst_edges + (i * 4 + 2))"
  define "by" where "by = m (mst_edges + (i * 4 + 3))"
  define s where "s = bridge_sigma baseSigma ax ay bx by"
  let ?rlo = "bbox_lo conv (min ay by - 3 * s) origin_y cell_size"
  let ?rhi = "bbox_hi conv (max ay by + 3 * s) origin_y cell_size rows + 1"
  let ?clo = "bbox_lo conv (min ax bx - 3 * s) origin_x cell_size"
  let ?chi = "bbox_hi conv (max ax bx + 3 * s) origin_x cell_size cols + 1"
  let ?cell = "bridge_cell grid_values cols origin_x origin_y cell_size ax ay bx by
      (1 / (2 * s * s)) (3 * s * (3 * s))"
  let ?w = "bridge_weight origin_x origin_y cell_size ax ay bx by
      (1 / (2 * s * s)) (3 * s * (3 * s)) r c"
  have e: "bridge_edge conv grid_values cols rows origin_x origin_y cell_size mst_edges
      baseSigma i m = for_loop ?rlo ?rhi (\<lambda>r. for_loop ?clo ?chi (?cell r)) m"
    by (simp add: bridge_edge_unfold Let_def ax_def by_def ay_def bx_def s_def)
  have v: "edge_visits conv m cols rows origin_x origin_y cell_size mst_edges baseSigma i r c =
      (?rlo \<le> r \<and> r < ?rhi \<and> ?clo \<le> c \<and> c < ?chi)"
    by (simp add: edge_visits_def Let_def ax_def by_def ay_def bx_def s_def)
  have w: "edge_weight m origin_x origin_y cell_size mst_edges baseSigma i r c = ?w"
    by (simp add: edge_weight_def Let_def ax_def by_def ay_def bx_def s_def)
  have lo: "0 \<le> ?clo"
    by (rule bbox_lo_nonneg)
  have hi: "?chi \<le> cols"
    using bbox_hi_le [of conv "max ax bx + 3 * s" origin_x cell_size cols] by simp
  have "for_loop ?rlo ?rhi (\<lambda>r. for_loop ?clo ?chi (?cell r)) m (grid_values + (r * cols + c)) =
      m (grid_values + (r * cols + c)) +
        (if ?rlo \<le> r \<and> r < ?rhi \<and> ?clo \<le> c \<and> c < ?chi then ?w else 0)"
    using lo hi c by (rule bridge_loops_at)
  then show ?thesis
    by (simp only: e v w)
qed


lemma edge_visits_in_range:
  assumes cs: "0 < cell_size"
    and rng: "box_in_range m origin_x origin_y cell_size mst_edges baseSigma i"
    and cell: "0 \<le> r" "r < rows" "0 \<le> c" "c < cols"
    and w: "edge_weight m origin_x origin_y cell_size mst_edges baseSigma i r c \<noteq> 0"
  shows "edge_visits conv m cols rows origin_x origin_y cell_size mst_edges baseSigma i r c"
proof -
  define ax where "ax = m (mst_edges + (i * 4 + 0))"
  define ay where "ay = m (mst_edges + (i * 4 + 1))"
  define bx where "bx = m (mst_edges + (i * 4 + 2))"
  define "by" where "by = m (mst_edges + (i * 4 + 3))"
  define s where "s = bridge_sigma baseSigma ax ay bx by"
  have s: "0 \<le> s"
    unfolding s_def by (rule bridge_sigma_nonneg)
  from rng have r:
    "int_range \<lfloor>(min ay by - 3 * s - origin_y) / cell_size\<rfloor>"
    "int_range \<lceil>(max ay by + 3 * s - origin_y) / cell_size\<rceil>"
    "int_range \<lfloor>(min ax bx - 3 * s - origin_x) / cell_size\<rfloor>"
    "int_range \<lceil>(max ax bx + 3 * s - origin_x) / cell_size\<rceil>"
    by (simp_all add: box_in_range_unfold Let_def ax_def by_def ay_def bx_def s_def)
  from w have "bridge_weight origin_x origin_y cell_size ax ay bx by
      (1 / (2 * s * s)) (3 * s * (3 * s)) r c \<noteq> 0"
    by (simp add: edge_weight_def Let_def ax_def by_def ay_def bx_def s_def)
  from bridge_weight_in_box [OF cs s r cell this, of conv]
  show ?thesis
    by (simp add: edge_visits_def Let_def ax_def by_def ay_def bx_def s_def)
qed

lemma bridge_edge_in_grid:
  assumes cs: "0 < cell_size"
    and rng: "box_in_range m origin_x origin_y cell_size mst_edges baseSigma i"
    and cell: "0 \<le> r" "r < rows" "0 \<le> c" "c < cols"
  shows "bridge_edge conv grid_values cols rows origin_x origin_y cell_size mst_edges baseSigma
           i m (grid_values + (r * cols + c)) =
         m (grid_values + (r * cols + c)) +
           edge_weight m origin_x origin_y cell_size mst_edges baseSigma i r c"
proof (cases "edge_weight m origin_x origin_y cell_size mst_edges baseSigma i r c = 0")
  case True
  then show ?thesis
    by (simp add: bridge_edge_at [OF cell(3,4)])
next
  case False
  from edge_visits_in_range [OF cs rng cell False]
  show ?thesis
    by (simp add: bridge_edge_at [OF cell(3,4)])
qed

lemma inside_grid:
  fixes r c rows cols :: int
  assumes "0 \<le> r" "r < rows" "0 \<le> c" "c < cols"
  shows "0 \<le> r * cols + c \<and> r * cols + c < rows * cols"
proof -
  have "0 \<le> r * cols" using assms by simp
  moreover have "(r + 1) * cols \<le> rows * cols"
    using assms by (intro mult_right_mono) simp_all
  ultimately show ?thesis using assms by (simp add: algebra_simps)
qed

lemma bridge_edge_frame:
  assumes a: "a < grid_values \<or> grid_values + rows * cols \<le> a"
  shows "bridge_edge conv grid_values cols rows origin_x origin_y cell_size mst_edges baseSigma i m a
         = m a"
proof -
  define ax where "ax = m (mst_edges + (i * 4 + 0))"
  define ay where "ay = m (mst_edges + (i * 4 + 1))"
  define bx where "bx = m (mst_edges + (i * 4 + 2))"
  define "by" where "by = m (mst_edges + (i * 4 + 3))"
  define s where "s = bridge_sigma baseSigma ax ay bx by"
  let ?rlo = "bbox_lo conv (min ay by - 3 * s) origin_y cell_size"
  let ?rhi = "bbox_hi conv (max ay by + 3 * s) origin_y cell_size rows + 1"
  let ?clo = "bbox_lo conv (min ax bx - 3 * s) origin_x cell_size"
  let ?chi = "bbox_hi conv (max ax bx + 3 * s) origin_x cell_size cols + 1"
  let ?cell = "bridge_cell grid_values cols origin_x origin_y cell_size ax ay bx by
      (1 / (2 * s * s)) (3 * s * (3 * s))"
  have e: "bridge_edge conv grid_values cols rows origin_x origin_y cell_size mst_edges baseSigma i m =
      for_loop ?rlo ?rhi (\<lambda>r. for_loop ?clo ?chi (?cell r)) m"
    by (simp add: bridge_edge_unfold Let_def ax_def ay_def bx_def by_def s_def)
  have lo: "0 \<le> ?clo" "0 \<le> ?rlo"
    by (rule bbox_lo_nonneg)+
  have hi: "?chi \<le> cols" "?rhi \<le> rows"
    using bbox_hi_le [of conv "max ax bx + 3 * s" origin_x cell_size cols]
      bbox_hi_le [of conv "max ay by + 3 * s" origin_y cell_size rows]
    by simp_all
  show ?thesis
  proof (cases "0 < cols")
    case False
    with lo(1) hi(1) have "?chi \<le> ?clo" by linarith
    then have "for_loop ?rlo ?rhi (\<lambda>r. for_loop ?clo ?chi (?cell r)) m = m"
      by (intro for_loop_skip for_loop_empty)
    with e show ?thesis by simp
  next
    case True
    obtain r c where rc: "0 \<le> c" "c < cols" "a = grid_values + (r * cols + c)"
      using address_in_row [OF True] by blast
    have "\<not> (0 \<le> r \<and> r < rows)"
    proof
      assume "0 \<le> r \<and> r < rows"
      then have "0 \<le> r * cols + c \<and> r * cols + c < rows * cols"
        using rc(1,2) by (intro inside_grid) simp_all
      with a rc(3) show False by simp
    qed
    with lo(2) hi(2) have out: "\<not> (?rlo \<le> r \<and> r < ?rhi \<and> ?clo \<le> c \<and> c < ?chi)"
      by linarith
    have "for_loop ?rlo ?rhi (\<lambda>r. for_loop ?clo ?chi (?cell r)) m a =
        m a + (if ?rlo \<le> r \<and> r < ?rhi \<and> ?clo \<le> c \<and> c < ?chi
               then bridge_weight origin_x origin_y cell_size ax ay bx by
                      (1 / (2 * s * s)) (3 * s * (3 * s)) r c
               else 0)"
      unfolding rc(3) using lo(1) hi(1) rc(1,2) by (rule bridge_loops_at)
    also have "\<dots> = m a"
      by (simp only: out if_False add_0_right)
    finally show ?thesis
      by (simp only: e)
  qed
qed

lemma add_bridge_field_frame:
  assumes a: "a < grid_values \<or> grid_values + rows * cols \<le> a"
  shows "add_bridge_field conv m grid_values cols rows origin_x origin_y cell_size
           mst_edges num_mst_edges base_sigma a = m a"
proof (cases "0 \<le> num_mst_edges")
  case False
  then show ?thesis
    by (simp add: add_bridge_field_def for_loop_empty)
next
  case True
  have "for_loop 0 num_mst_edges
      (bridge_edge conv grid_values cols rows origin_x origin_y cell_size mst_edges
         (max base_sigma (cell_size * (5 / 2)))) m a = m a"
  proof (rule for_loop_rule [where P = "\<lambda>i m'. m' a = m a"])
    show "m a = m a" by simp
    show "0 \<le> num_mst_edges" by fact
  next
    fix i and t :: mem
    assume "t a = m a"
    then show "bridge_edge conv grid_values cols rows origin_x origin_y cell_size mst_edges
        (max base_sigma (cell_size * (5 / 2))) i t a = m a"
      by (simp add: bridge_edge_frame [OF a])
  qed
  then show ?thesis
    by (simp add: add_bridge_field_def)
qed





lemma add_bridge_field_single:
  "add_bridge_field conv m grid_values cols rows origin_x origin_y cell_size mst_edges 1
     base_sigma =
   bridge_edge conv grid_values cols rows origin_x origin_y cell_size mst_edges
     (max base_sigma (cell_size * (5 / 2))) 0 m"
  by (simp add: add_bridge_field_def for_loop_once)


lemma add_bridge_field_pair:
  "add_bridge_field conv m grid_values cols rows origin_x origin_y cell_size mst_edges 2
     base_sigma =
   bridge_edge conv grid_values cols rows origin_x origin_y cell_size mst_edges
     (max base_sigma (cell_size * (5 / 2))) 1
     (bridge_edge conv grid_values cols rows origin_x origin_y cell_size mst_edges
        (max base_sigma (cell_size * (5 / 2))) 0 m)"
  by (simp add: add_bridge_field_def for_loop_twice Let_def)

lemma edge_weight_cong:
  assumes "m' (mst_edges + (i * 4 + 0)) = m (mst_edges + (i * 4 + 0))"
    and "m' (mst_edges + (i * 4 + 1)) = m (mst_edges + (i * 4 + 1))"
    and "m' (mst_edges + (i * 4 + 2)) = m (mst_edges + (i * 4 + 2))"
    and "m' (mst_edges + (i * 4 + 3)) = m (mst_edges + (i * 4 + 3))"
  shows "edge_weight m' origin_x origin_y cell_size mst_edges baseSigma i r c =
         edge_weight m origin_x origin_y cell_size mst_edges baseSigma i r c"
  by (simp only: edge_weight_def assms)

lemma edge_visits_cong:
  assumes "m' (mst_edges + (i * 4 + 0)) = m (mst_edges + (i * 4 + 0))"
    and "m' (mst_edges + (i * 4 + 1)) = m (mst_edges + (i * 4 + 1))"
    and "m' (mst_edges + (i * 4 + 2)) = m (mst_edges + (i * 4 + 2))"
    and "m' (mst_edges + (i * 4 + 3)) = m (mst_edges + (i * 4 + 3))"
  shows "edge_visits conv m' cols rows origin_x origin_y cell_size mst_edges baseSigma i r c =
         edge_visits conv m cols rows origin_x origin_y cell_size mst_edges baseSigma i r c"
  by (simp only: edge_visits_def assms)

lemma edge_shift:
  "mst_edges + 4 + (0 * 4 + 0) = mst_edges + (1 * 4 + 0)"
  "mst_edges + 4 + (0 * 4 + 1) = mst_edges + (1 * 4 + 1)"
  "mst_edges + 4 + (0 * 4 + 2) = mst_edges + (1 * 4 + 2)"
  "mst_edges + 4 + (0 * 4 + 3) = mst_edges + (1 * 4 + 3)"
  for mst_edges :: int
  by simp_all

lemma edge_weight_shift:
  "edge_weight m origin_x origin_y cell_size (mst_edges + 4) baseSigma 0 r c =
   edge_weight m origin_x origin_y cell_size mst_edges baseSigma 1 r c"
  by (simp only: edge_weight_def edge_shift)

lemma edge_visits_shift:
  "edge_visits conv m cols rows origin_x origin_y cell_size (mst_edges + 4) baseSigma 0 r c =
   edge_visits conv m cols rows origin_x origin_y cell_size mst_edges baseSigma 1 r c"
  by (simp only: edge_visits_def edge_shift)

subsection \<open>Evaluation on concrete grids\<close>

text \<open>
  A single edge from \<open>(0, 0)\<close> to \<open>(0, 0)\<close>, with \<^verbatim>\<open>base_sigma\<close> 1 and cells of
  size 1 from the origin: the width of the edge is \<open>5 / 2\<close>, the cutoff \<open>15 / 2\<close>, and the
  box reaches from \<open>- 8\<close> to \<open>8\<close>, within the range of \<^verbatim>\<open>int\<close>.
\<close>

lemma box_in_range_point:
  "box_in_range (\<lambda>a. 0) 0 0 1 mst_edges (max 1 (1 * (5 / 2))) 0"
  by (simp add: box_in_range_def int_range_def)

lemma add_bridge_field_point:
  "add_bridge_field conv (\<lambda>a. 0) 0 1 1 0 0 1 10 1 1 0 = 1"
proof -
  have cs: "(0::real) < 1" by simp
  have cell: "(0::int) \<le> 0" "(0::int) < 1" "(0::int) \<le> 0" "(0::int) < 1" by simp_all
  from bridge_edge_in_grid [OF cs box_in_range_point cell, of conv 0 10]
  show ?thesis
    by (simp add: add_bridge_field_single edge_weight_def bridge_weight_def bridge_sigma_def
        dist_to_segment_sq_def)
qed

subsection \<open>The whole accumulation\<close>




text \<open>
  Claim C9. \<^verbatim>\<open>marching_squares\<close> leaves every value of the grid as it was, provided
  the output buffer, at its documented size, does not overlap the grid; and
  \<^verbatim>\<open>add_bridge_field\<close> changes no address outside the \<open>rows * cols\<close> floats of the
  grid, whatever the memory holds and whatever \<open>conv\<close> is: it writes neither the buffer
  of the edges nor anything else.
\<close>

theorem buffers_frame:
  "(segments_out + 8 * (rows - 1) * (cols - 1) \<le> grid_values \<or>
    grid_values + rows * cols \<le> segments_out \<longrightarrow>
      (\<exists>m' n. marching_squares m grid_values cols rows origin_x origin_y cell_size
                 threshold segments_out = Some (m', n) \<and>
               (\<forall>k. 0 \<le> k \<and> k < rows * cols \<longrightarrow> m' (grid_values + k) = m (grid_values + k)))) \<and>
   (\<forall>a. a < grid_values \<or> grid_values + rows * cols \<le> a \<longrightarrow>
      add_bridge_field conv m grid_values cols rows origin_x origin_y cell_size
        mst_edges num_mst_edges base_sigma a = m a)"
proof (intro conjI impI allI)
  fix a
  assume "a < grid_values \<or> grid_values + rows * cols \<le> a"
  then show "add_bridge_field conv m grid_values cols rows origin_x origin_y cell_size
      mst_edges num_mst_edges base_sigma a = m a"
    by (rule add_bridge_field_frame)
next
  assume apart: "segments_out + 8 * (rows - 1) * (cols - 1) \<le> grid_values \<or>
    grid_values + rows * cols \<le> segments_out"
  show "\<exists>m' n. marching_squares m grid_values cols rows origin_x origin_y cell_size
                 threshold segments_out = Some (m', n) \<and>
               (\<forall>k. 0 \<le> k \<and> k < rows * cols \<longrightarrow> m' (grid_values + k) = m (grid_values + k))"
  proof (cases "1 \<le> rows \<and> 1 \<le> cols")
    case False
    then have "marching_squares m grid_values cols rows origin_x origin_y cell_size
        threshold segments_out = Some (m, 0)"
      by (intro marching_squares_empty) auto
    then show ?thesis by simp
  next
    case True
    then obtain m' n where ms:
      "marching_squares m grid_values cols rows origin_x origin_y cell_size
         threshold segments_out = Some (m', n)"
      "0 \<le> n" "n \<le> 2 * ((rows - 1) * (cols - 1))"
      "\<forall>a. a < segments_out \<or> segments_out + n * 4 \<le> a \<longrightarrow> m' a = m a"
      using marching_squares_frame [of rows cols] by blast
    have "m' (grid_values + k) = m (grid_values + k)" if k: "0 \<le> k \<and> k < rows * cols" for k
    proof -
      have "8 * (rows - 1) * (cols - 1) = 4 * (2 * ((rows - 1) * (cols - 1)))"
        by simp
      with apart ms(3) k
      have "grid_values + k < segments_out \<or> segments_out + n * 4 \<le> grid_values + k"
        by linarith
      with ms(4) show ?thesis by blast
    qed
    with ms(1) show ?thesis by blast
  qed
qed

theorem buffers_frame_witness:
  "(0::int) + 2 * 2 \<le> 10 \<and>
   (\<exists>m' n. marching_squares ((\<lambda>a. 0)(3 := 1)) 0 2 2 0 0 2 (1 / 2) 10 = Some (m', n) \<and>
      n = 1 \<and> m' 0 = 0 \<and> m' 1 = 0 \<and> m' 2 = 0 \<and> m' 3 = 1 \<and> m' 10 = 1) \<and>
   add_bridge_field (\<lambda>a b. - 2147483648) (\<lambda>a. 0) 0 1 1 0 0 1 10 1 1 0 = 1 \<and>
   add_bridge_field (\<lambda>a b. - 2147483648) (\<lambda>a. 0) 0 1 1 0 0 1 10 1 1 10 = 0"
proof -
  have apart: "(10::int) + 8 * (2 - 1) * (2 - 1) \<le> 0 \<or> (0::int) + 2 * 2 \<le> 10"
    by simp
  note f = buffers_frame [where segments_out = 10 and rows = 2 and cols = 2 and
      grid_values = 0 and m = "(\<lambda>a. 0)(3 := 1)" and origin_x = 0 and origin_y = 0 and
      cell_size = 2 and threshold = "1 / 2"]
  from f apart obtain m' n where ms:
    "marching_squares ((\<lambda>a. 0)(3 := 1)) 0 2 2 0 0 2 (1 / 2) 10 = Some (m', n)"
    "\<forall>k. 0 \<le> k \<and> k < 2 * 2 \<longrightarrow> m' (0 + k) = ((\<lambda>a. 0)(3 := 1)) (0 + k)"
    by blast
  from ms(2) [rule_format, of 0] ms(2) [rule_format, of 1] ms(2) [rule_format, of 2]
    ms(2) [rule_format, of 3]
  have g: "m' 0 = 0" "m' 1 = 0" "m' 2 = 0" "m' 3 = 1"
    by simp_all
  from ms(1) have "n = 1" "m' 10 = 1"
    by (auto simp add: marching_squares_one_cell store_segment_def)
  with ms(1) g have 1: "\<exists>m' n. marching_squares ((\<lambda>a. 0)(3 := 1)) 0 2 2 0 0 2 (1 / 2) 10
      = Some (m', n) \<and> n = 1 \<and> m' 0 = 0 \<and> m' 1 = 0 \<and> m' 2 = 0 \<and> m' 3 = 1 \<and> m' 10 = 1"
    by simp
  have 2: "add_bridge_field (\<lambda>a b. - 2147483648) (\<lambda>a. 0) 0 1 1 0 0 1 10 1 1 0 = 1"
    by (rule add_bridge_field_point)
  have 3: "add_bridge_field (\<lambda>a b. - 2147483648) (\<lambda>a. 0) 0 1 1 0 0 1 10 1 1 10 = 0"
    using buffers_frame [where grid_values = 0 and rows = 1 and cols = 1 and m = "\<lambda>a. 0" and
        conv = "\<lambda>a b. - 2147483648" and origin_x = 0 and origin_y = 0 and cell_size = 1 and
        mst_edges = 10 and num_mst_edges = 1 and base_sigma = 1]
    by simp
  from 1 2 3 show ?thesis by simp
qed




text \<open>
  Claim C6. Calling \<^verbatim>\<open>add_bridge_field\<close> once with two edges leaves in every cell of
  the grid the starting value plus the two contributions obtained by accumulating each
  edge on its own from the starting grid; a contribution is what the call with the one
  edge adds to the cell. In exact arithmetic this holds for every two edges, and so for
  two edges whose cutoff supports share no cell; and it holds whatever \<open>conv\<close> is, since
  an edge visits the same cells in the call with both edges as in the call on its own.
  The buffer of the edges is assumed not to overlap the grid, and the cell size is
  positive.
\<close>

theorem add_bridge_field_additive:
  assumes cs: "0 < cell_size" and cell: "0 \<le> r" "r < rows" "0 \<le> c" "c < cols"
    and apart: "mst_edges + 8 \<le> grid_values \<or> grid_values + rows * cols \<le> mst_edges"
  shows "add_bridge_field conv m grid_values cols rows origin_x origin_y cell_size mst_edges 2
           base_sigma (grid_values + (r * cols + c)) =
         m (grid_values + (r * cols + c)) +
           (add_bridge_field conv m grid_values cols rows origin_x origin_y cell_size
              mst_edges 1 base_sigma (grid_values + (r * cols + c)) -
            m (grid_values + (r * cols + c))) +
           (add_bridge_field conv m grid_values cols rows origin_x origin_y cell_size
              (mst_edges + 4) 1 base_sigma (grid_values + (r * cols + c)) -
            m (grid_values + (r * cols + c)))"
proof -
  let ?bs = "max base_sigma (cell_size * (5 / 2))"
  let ?a = "grid_values + (r * cols + c)"
  let ?m1 = "bridge_edge conv grid_values cols rows origin_x origin_y cell_size mst_edges ?bs
      0 m"
  let ?add = "\<lambda>t i. (if edge_visits conv t cols rows origin_x origin_y cell_size mst_edges ?bs i r c
      then edge_weight t origin_x origin_y cell_size mst_edges ?bs i r c else 0)"
  note at = bridge_edge_at [OF cell(3,4)]
  have edge: "?m1 (mst_edges + (1 * 4 + k)) = m (mst_edges + (1 * 4 + k))"
    if "0 \<le> k \<and> k \<le> 3" for k
    using apart that by (intro bridge_edge_frame) auto
  have w1: "edge_weight ?m1 origin_x origin_y cell_size mst_edges ?bs 1 r c =
      edge_weight m origin_x origin_y cell_size mst_edges ?bs 1 r c"
    by (intro edge_weight_cong edge) simp_all
  have v1: "edge_visits conv ?m1 cols rows origin_x origin_y cell_size mst_edges ?bs 1 r c =
      edge_visits conv m cols rows origin_x origin_y cell_size mst_edges ?bs 1 r c"
    by (intro edge_visits_cong edge) simp_all
  have both: "add_bridge_field conv m grid_values cols rows origin_x origin_y cell_size
      mst_edges 2 base_sigma ?a = m ?a + ?add m 0 + ?add m 1"
    by (simp only: add_bridge_field_pair at w1 v1)
  have first: "add_bridge_field conv m grid_values cols rows origin_x origin_y cell_size
      mst_edges 1 base_sigma ?a = m ?a + ?add m 0"
    by (simp only: add_bridge_field_single at)
  have second: "add_bridge_field conv m grid_values cols rows origin_x origin_y cell_size
      (mst_edges + 4) 1 base_sigma ?a = m ?a + ?add m 1"
    by (simp only: add_bridge_field_single at edge_weight_shift edge_visits_shift)
  show ?thesis
    unfolding both first second by simp
qed

theorem add_bridge_field_additive_witness:
  "(0::real) < 1 \<and> (0::int) + 1 * 20 \<le> 40 \<and>
   add_bridge_field (\<lambda>a b. - 2147483648) ((\<lambda>a. 0)(44 := 19, 46 := 19)) 0 20 1 0 0 1 40 1 1 0
     = 1 \<and>
   add_bridge_field (\<lambda>a b. - 2147483648) ((\<lambda>a. 0)(44 := 19, 46 := 19)) 0 20 1 0 0 1 (40 + 4)
     1 1 0 = 0 \<and>
   add_bridge_field (\<lambda>a b. - 2147483648) ((\<lambda>a. 0)(44 := 19, 46 := 19)) 0 20 1 0 0 1 40 2 1 0
     = 1"
proof -
  let ?m = "(\<lambda>a. 0)(44 := 19, 46 := (19::real))"
  let ?conv = "\<lambda>(a::real) (b::real). - 2147483648 :: int"
  have cs: "(0::real) < 1" by simp
  have cell: "(0::int) \<le> 0" "(0::int) < 1" "(0::int) \<le> 0" "(0::int) < 20" by simp_all
  have apart: "(40::int) + 8 \<le> 0 \<or> (0::int) + 1 * 20 \<le> 40" by simp
  have rng: "box_in_range ?m 0 0 1 40 (max 1 (1 * (5 / 2))) 0"
    by (simp add: box_in_range_def int_range_def)
  have first: "add_bridge_field ?conv ?m 0 20 1 0 0 1 40 1 1 0 = 1"
    using bridge_edge_in_grid [OF cs rng cell, of ?conv 0]
    by (simp add: add_bridge_field_single edge_weight_def bridge_weight_def bridge_sigma_def
        dist_to_segment_sq_def)
  have second: "add_bridge_field ?conv ?m 0 20 1 0 0 1 (40 + 4) 1 1 0 = 0"
    using bridge_edge_at [OF cell(3,4), where r = 0 and rows = 1 and conv = ?conv and
        grid_values = 0 and origin_x = 0 and origin_y = 0 and cell_size = 1 and
        mst_edges = "40 + 4" and baseSigma = "max 1 (1 * (5 / 2))" and i = 0 and m = ?m]
    by (simp add: add_bridge_field_single edge_weight_def bridge_weight_def bridge_sigma_def
        dist_to_segment_sq_def)
  have both: "add_bridge_field ?conv ?m 0 20 1 0 0 1 40 2 1 0 = 1"
    using add_bridge_field_additive [OF cs cell apart, of ?conv ?m 0 0 1] first second
    by simp
  from first second both show ?thesis by simp
qed
end
